theory Spec2Isabelle
  imports Complex_Main "HOL-Library.List_Lexorder"
begin

section \<open>Python strings\<close>

text \<open>
  A Python \<open>str\<close> is a sequence of Unicode code points, and \<open>len\<close>, indexing and
  comparison work on code points. A string is modelled as the list of its code points,
  each a natural number; the order on strings is the lexicographic order of
  \<open>HOL-Library.List_Lexorder\<close>, which is how Python compares two \<open>str\<close> values.
\<close>

type_synonym ustr = "nat list"

definition ustr :: "string \<Rightarrow> ustr" where
  "ustr s = map of_char s"

text \<open>
  The character properties of code points above U+00FF come from Python's copy of the
  Unicode character database, which is not part of the repository. They are taken as a
  parameter; the properties of ASCII and Latin-1 code points are written out.
\<close>

record ucd =
  alpha_ext :: "nat \<Rightarrow> bool"
  decimal_ext :: "nat \<Rightarrow> nat option"
  lower_ext :: "nat \<Rightarrow> nat list"

text \<open>A table in which no code point above U+00FF is assigned.\<close>

definition ucd_latin1 :: ucd where
  "ucd_latin1 = \<lparr>alpha_ext = (\<lambda>c. False), decimal_ext = (\<lambda>c. None), lower_ext = (\<lambda>c. [c])\<rparr>"

definition is_ascii_upper :: "nat \<Rightarrow> bool" where
  "is_ascii_upper c = (65 \<le> c \<and> c \<le> 90)"

definition is_ascii_lower :: "nat \<Rightarrow> bool" where
  "is_ascii_lower c = (97 \<le> c \<and> c \<le> 122)"

definition is_ascii_letter :: "nat \<Rightarrow> bool" where
  "is_ascii_letter c = (is_ascii_upper c \<or> is_ascii_lower c)"

text \<open>
  \<open>str.isspace\<close> of one code point: the characters Python's \<open>strip()\<close> removes.
\<close>

definition is_space :: "nat \<Rightarrow> bool" where
  "is_space c =
     ((9 \<le> c \<and> c \<le> 13) \<or> (28 \<le> c \<and> c \<le> 32) \<or> c = 0x85 \<or> c = 0xA0 \<or> c = 0x1680
      \<or> (0x2000 \<le> c \<and> c \<le> 0x200A) \<or> c = 0x2028 \<or> c = 0x2029 \<or> c = 0x202F
      \<or> c = 0x205F \<or> c = 0x3000)"

definition py_strip :: "ustr \<Rightarrow> ustr" where
  "py_strip s = rev (dropWhile is_space (rev (dropWhile is_space s)))"

text \<open>
  The alphabetic code points of the Latin-1 supplement (general categories Lu, Ll, Lo):
  the ordinal indicators, the micro sign and the accented letters, without the
  multiplication and division signs.
\<close>

definition latin1_alpha :: "nat \<Rightarrow> bool" where
  "latin1_alpha c =
     (c = 0xAA \<or> c = 0xB5 \<or> c = 0xBA \<or> (0xC0 \<le> c \<and> c \<le> 0xD6)
      \<or> (0xD8 \<le> c \<and> c \<le> 0xF6) \<or> (0xF8 \<le> c \<and> c \<le> 0xFF))"

definition is_alpha :: "ucd \<Rightarrow> nat \<Rightarrow> bool" where
  "is_alpha db c =
     (if c < 128 then is_ascii_letter c
      else if c < 256 then latin1_alpha c
      else alpha_ext db c)"

text \<open>\<open>str.isalpha\<close>: at least one character, and every character alphabetic.\<close>

definition py_isalpha :: "ucd \<Rightarrow> ustr \<Rightarrow> bool" where
  "py_isalpha db s = (s \<noteq> [] \<and> list_all (is_alpha db) s)"

text \<open>
  \<open>word.encode("ascii")\<close> raises \<open>UnicodeEncodeError\<close> exactly when some code point
  is above 127; the encoded bytes are not used.
\<close>

definition encodes_ascii :: "ustr \<Rightarrow> bool" where
  "encodes_ascii s = list_all (\<lambda>c. c < 128) s"

text \<open>
  \<open>str.lower\<close>, character by character. A code point may lower to several (U+0130),
  hence the list. The context-sensitive rule for the Greek final sigma lies in the
  parameter's range and is left to it.
\<close>

definition lower_char :: "ucd \<Rightarrow> nat \<Rightarrow> nat list" where
  "lower_char db c =
     (if c < 128 then (if is_ascii_upper c then [c + 32] else [c])
      else if c < 256 then (if 0xC0 \<le> c \<and> c \<le> 0xDE \<and> c \<noteq> 0xD7 then [c + 32] else [c])
      else lower_ext db c)"

definition py_lower :: "ucd \<Rightarrow> ustr \<Rightarrow> ustr" where
  "py_lower db s = concat (map (lower_char db) s)"

definition startswith_hash :: "ustr \<Rightarrow> bool" where
  "startswith_hash s = (case s of [] \<Rightarrow> False | c # _ \<Rightarrow> c = 35)"

section \<open>The word filter\<close>

text \<open>
  The loop of \<open>process_words\<close>, with its two variables \<open>seen\<close> and \<open>clean\<close> as the
  state. Every \<open>continue\<close> of the source is a branch that leaves the state unchanged.
\<close>

fun process_loop :: "ucd \<Rightarrow> ustr set \<times> ustr list \<Rightarrow> ustr list \<Rightarrow> ustr set \<times> ustr list" where
  "process_loop db (seen, clean) [] = (seen, clean)"
| "process_loop db (seen, clean) (line # rest) =
     (let word = py_strip line in
      if word = [] \<or> startswith_hash word then process_loop db (seen, clean) rest
      else if \<not> py_isalpha db word then process_loop db (seen, clean) rest
      else if \<not> encodes_ascii word then process_loop db (seen, clean) rest
      else if length word \<noteq> 5 then process_loop db (seen, clean) rest
      else
        (let word_lower = py_lower db word in
         if word_lower \<in> seen then process_loop db (seen, clean) rest
         else process_loop db (insert word_lower seen, clean @ [word_lower]) rest))"

definition process_words :: "ucd \<Rightarrow> ustr list \<Rightarrow> ustr list" where
  "process_words db raw_words = sort (snd (process_loop db ({}, []) raw_words))"

text \<open>
  The invariant of the word set: five characters, each a lowercase ASCII letter.
\<close>

definition clean_word :: "ustr \<Rightarrow> bool" where
  "clean_word w = (length w = 5 \<and> list_all is_ascii_lower w)"

text \<open>What \<open>str.lower\<close> does to an ASCII character.\<close>

definition ascii_lower :: "nat \<Rightarrow> nat" where
  "ascii_lower c = (if is_ascii_upper c then c + 32 else c)"

section \<open>Exceptions\<close>

text \<open>
  The exception classes the program meets. \<open>HTTPError\<close> is a subclass of
  \<open>URLError\<close>, so an \<open>except URLError\<close> clause catches both; \<open>SystemExit n\<close> is
  what \<open>sys.exit(n)\<close> raises.
\<close>

datatype py_exc =
    URLError | HTTPError | JSONDecodeError | KeyError
  | UnicodeDecodeError | AttributeError | TypeError | ValueError | OSError
  | TarError | SystemExit nat

definition is_URLError :: "py_exc \<Rightarrow> bool" where
  "is_URLError e = (e = URLError \<or> e = HTTPError)"

section \<open>The pattern of word-file names\<close>

text \<open>
  The part of Python's regular expressions that \<open>WORD_FILE_PATTERN\<close> is written in:
  a literal character, \<open>.\<close> and \<open>\d\<close> as one-character atoms, the repetitions
  \<open>*\<close>, \<open>+\<close> and \<open>?\<close> of an atom, a run of literals, sequence, alternation, a
  numbered group and \<open>$\<close>. The pattern is compiled with \<open>re.IGNORECASE\<close>, so a literal
  matches without regard to case.
\<close>

datatype atom = Lit nat | Dot | Digit

datatype rx =
    One atom
  | Rep0 atom
  | Rep1 atom
  | Opt atom
  | Str ustr
  | Seq rx rx
  | Alt rx rx
  | Grp nat rx
  | Dollar

text \<open>
  A literal of the pattern against a character of the name, under \<open>IGNORECASE\<close> on a
  \<open>str\<close> pattern. The literals of the pattern are ASCII. An ASCII letter matches its two
  cases and the few other code points whose lowercase form it is or is paired with:
  U+0130 and U+0131 for \<open>i\<close>, U+017F for \<open>s\<close>, U+212A for \<open>k\<close>. Any other literal
  matches only itself.
\<close>

definition lit_match :: "nat \<Rightarrow> nat \<Rightarrow> bool" where
  "lit_match p c =
     (if is_ascii_letter p then
        (let lo = ascii_lower p in
         ascii_lower c = lo \<or> (lo = 0x69 \<and> (c = 0x130 \<or> c = 0x131)) \<or> (lo = 0x73 \<and> c = 0x17F)
         \<or> (lo = 0x6B \<and> c = 0x212A))
      else c = p)"

text \<open>
  The decimal value of a code point that \<open>\d\<close> matches: on a \<open>str\<close> pattern these are
  the Unicode decimal digits, of which ASCII and Latin-1 hold only \<open>0\<close> to \<open>9\<close>.
\<close>

definition decimal_value :: "ucd \<Rightarrow> nat \<Rightarrow> nat option" where
  "decimal_value db c =
     (if 48 \<le> c \<and> c \<le> 57 then Some (c - 48)
      else if c < 256 then None
      else decimal_ext db c)"

definition is_decimal :: "ucd \<Rightarrow> nat \<Rightarrow> bool" where
  "is_decimal db c = (decimal_value db c \<noteq> None)"

text \<open>Without \<open>DOTALL\<close>, the dot matches every character but the newline.\<close>

fun atom_ok :: "ucd \<Rightarrow> atom \<Rightarrow> nat \<Rightarrow> bool" where
  "atom_ok db (Lit p) c = lit_match p c"
| "atom_ok db Dot c = (c \<noteq> 10)"
| "atom_ok db Digit c = is_decimal db c"

text \<open>
  A greedy repetition takes as many characters as it can and gives them back one at a
  time: the inputs left over, the shortest first.
\<close>

fun greedy :: "(nat \<Rightarrow> bool) \<Rightarrow> ustr \<Rightarrow> ustr list" where
  "greedy p [] = [[]]"
| "greedy p (c # cs) = (if p c then greedy p cs @ [c # cs] else [c # cs])"

type_synonym groups = "nat \<Rightarrow> ustr option"

text \<open>
  The backtracking matcher: from an input and the groups captured so far, every way to
  match, in the order the engine tries them, each with the input left over and the
  groups. \<open>$\<close> (without \<open>MULTILINE\<close>) holds at the end of the input and just before a
  newline that ends it.
\<close>

fun rx_run :: "ucd \<Rightarrow> rx \<Rightarrow> ustr \<times> groups \<Rightarrow> (ustr \<times> groups) list" where
  "rx_run db (One a) (s, g) =
     (case s of [] \<Rightarrow> [] | c # cs \<Rightarrow> if atom_ok db a c then [(cs, g)] else [])"
| "rx_run db (Rep0 a) (s, g) = map (\<lambda>r. (r, g)) (greedy (atom_ok db a) s)"
| "rx_run db (Rep1 a) (s, g) =
     (case s of [] \<Rightarrow> []
      | c # cs \<Rightarrow> if atom_ok db a c then map (\<lambda>r. (r, g)) (greedy (atom_ok db a) cs) else [])"
| "rx_run db (Opt a) (s, g) =
     (case s of [] \<Rightarrow> [(s, g)]
      | c # cs \<Rightarrow> if atom_ok db a c then [(cs, g), (s, g)] else [(s, g)])"
| "rx_run db (Str w) (s, g) =
     (if length w \<le> length s \<and> list_all2 lit_match w (take (length w) s)
      then [(drop (length w) s, g)] else [])"
| "rx_run db (Seq r1 r2) st = concat (map (rx_run db r2) (rx_run db r1 st))"
| "rx_run db (Alt r1 r2) st = rx_run db r1 st @ rx_run db r2 st"
| "rx_run db (Grp n r) (s, g) =
     map (\<lambda>(s', g'). (s', g'(n \<mapsto> take (length s - length s') s))) (rx_run db r (s, g))"
| "rx_run db Dollar (s, g) = (if s = [] \<or> s = [10] then [(s, g)] else [])"

text \<open>
  \<open>pattern.match(s)\<close>: the first match that starts at the beginning of \<open>s\<close>, as its
  groups, or \<open>None\<close>.
\<close>

definition re_match :: "ucd \<Rightarrow> rx \<Rightarrow> ustr \<Rightarrow> groups option" where
  "re_match db r s =
     (case rx_run db r (s, Map.empty) of [] \<Rightarrow> None | (rest, g) # _ \<Rightarrow> Some g)"

text \<open>
  The pattern
  \<^verbatim>\<open>(english|american|british|canadian|australian|variant|.*-words?)\.(\d+)$\<close>.
\<close>

definition WORD_FILE_PATTERN :: rx where
  "WORD_FILE_PATTERN =
     Seq (Grp 1
            (Alt (Str (ustr ''english''))
            (Alt (Str (ustr ''american''))
            (Alt (Str (ustr ''british''))
            (Alt (Str (ustr ''canadian''))
            (Alt (Str (ustr ''australian''))
            (Alt (Str (ustr ''variant''))
                 (Seq (Rep0 Dot) (Seq (Str (ustr ''-word'')) (Opt (Lit 115)))))))))))
    (Seq (One (Lit 46))
    (Seq (Grp 2 (Rep1 Digit))
         Dollar))"

section \<open>The archive scanner\<close>

definition MIN_LEVEL :: int where
  "MIN_LEVEL = 10"

definition MAX_LEVEL :: int where
  "MAX_LEVEL = 70"

text \<open>
  \<open>int(match.group(2))\<close>. A group that took no part in the match is \<open>None\<close>, on which
  \<open>int\<close> raises \<open>TypeError\<close>; on text that is not a run of decimal digits it raises
  \<open>ValueError\<close>. The text of group 2 is always a run of decimal digits, on which
  \<open>int\<close> is the number they write. (CPython 3.11 and later refuse, under a run-time
  setting, runs of more than 4300 digits; the setting is not modelled.)
\<close>

fun int_digits :: "ucd \<Rightarrow> int \<Rightarrow> ustr \<Rightarrow> int option" where
  "int_digits db acc [] = Some acc"
| "int_digits db acc (c # cs) =
     (case decimal_value db c of
        None \<Rightarrow> None
      | Some d \<Rightarrow> int_digits db (10 * acc + int d) cs)"

definition int_of_group :: "ucd \<Rightarrow> ustr option \<Rightarrow> py_exc + int" where
  "int_of_group db grp =
     (case grp of
        None \<Rightarrow> Inl TypeError
      | Some s \<Rightarrow>
          (if s = [] then Inl ValueError
           else case int_digits db 0 s of None \<Rightarrow> Inl ValueError | Some n \<Rightarrow> Inr n))"

text \<open>\<open>os.path.basename\<close> of a POSIX path: what follows the last slash.\<close>

definition basename :: "ustr \<Rightarrow> ustr" where
  "basename p = rev (takeWhile (\<lambda>c. c \<noteq> 47) (rev p))"

text \<open>
  The head of the loop of \<open>extract_words\<close>, up to the second \<open>continue\<close>: whether the
  member of that name is read.
\<close>

definition qualifies :: "ucd \<Rightarrow> ustr \<Rightarrow> py_exc + bool" where
  "qualifies db name =
     (let filename = basename name in
      case re_match db WORD_FILE_PATTERN filename of
        None \<Rightarrow> Inr False
      | Some g \<Rightarrow>
          (case int_of_group db (g 2) of
             Inl e \<Rightarrow> Inl e
           | Inr level \<Rightarrow> Inr (MIN_LEVEL \<le> level \<and> level \<le> MAX_LEVEL)))"

text \<open>
  \<open>str.splitlines\<close>: a line ends at a line boundary, \<open>\r\n\<close> counting as one, and the
  boundary is dropped; text after the last boundary is a line if it is not empty. The
  same function with the boundaries \<open>\n\<close> and \<open>\r\<close> alone gives the lines of a text
  file read with universal newlines.
\<close>

fun split_lines :: "(nat \<Rightarrow> bool) \<Rightarrow> ustr \<Rightarrow> ustr \<Rightarrow> ustr list" where
  "split_lines brk cur [] = (if cur = [] then [] else [rev cur])"
| "split_lines brk cur [c] = (if brk c then [rev cur] else [rev (c # cur)])"
| "split_lines brk cur (c # d # cs) =
     (if c = 13 \<and> d = 10 then rev cur # split_lines brk [] cs
      else if brk c then rev cur # split_lines brk [] (d # cs)
      else split_lines brk (c # cur) (d # cs))"

definition is_linebreak :: "nat \<Rightarrow> bool" where
  "is_linebreak c =
     ((10 \<le> c \<and> c \<le> 13) \<or> (28 \<le> c \<and> c \<le> 30) \<or> c = 0x85 \<or> c = 0x2028 \<or> c = 0x2029)"

definition splitlines :: "ustr \<Rightarrow> ustr list" where
  "splitlines s = split_lines is_linebreak [] s"

text \<open>
  An archive member as the scanner sees it: its name, and what reading it gives.
  \<open>extractfile\<close> returns \<open>None\<close> for a member that is not a file; reading may raise;
  otherwise the bytes are decoded with \<open>errors="ignore"\<close>, which cannot fail, and
  \<open>Text\<close> holds the decoded text.
\<close>

datatype body = NoFile | ReadFails | Text ustr

record member =
  m_name :: ustr
  m_body :: body

text \<open>What \<open>tarfile.open\<close> and \<open>getmembers\<close> give: a \<open>TarError\<close>, or the members.\<close>

datatype tarball = Corrupt | Members "member list"

fun extract_loop ::
  "ucd \<Rightarrow> ustr list \<times> nat \<Rightarrow> member list \<Rightarrow> py_exc + (ustr list \<times> nat)" where
  "extract_loop db (raw_words, files_read) [] = Inr (raw_words, files_read)"
| "extract_loop db (raw_words, files_read) (m # ms) =
     (case qualifies db (m_name m) of
        Inl e \<Rightarrow> Inl e
      | Inr q \<Rightarrow>
          if \<not> q then extract_loop db (raw_words, files_read) ms
          else
            (case m_body m of
               NoFile \<Rightarrow> extract_loop db (raw_words, files_read) ms
             | ReadFails \<Rightarrow> extract_loop db (raw_words, files_read) ms
             | Text t \<Rightarrow> extract_loop db (raw_words @ splitlines t, files_read + 1) ms))"

definition extract_words :: "ucd \<Rightarrow> tarball \<Rightarrow> py_exc + ustr list" where
  "extract_words db tar =
     (case tar of
        Corrupt \<Rightarrow> Inl (SystemExit 1)
      | Members ms \<Rightarrow>
          (case extract_loop db ([], 0) ms of
             Inl e \<Rightarrow> Inl e
           | Inr (raw_words, files_read) \<Rightarrow> Inr raw_words))"

section \<open>The source resolver\<close>

text \<open>
  What \<open>json.loads\<close> builds. An object is the list of its items, the keys distinct as
  in a Python \<open>dict\<close>. (The non-finite floats that \<open>json.loads\<close> also accepts are left
  out.)
\<close>

datatype json =
    JNull
  | JBool bool
  | JInt int
  | JFloat real
  | JString ustr
  | JArray "json list"
  | JObject "(ustr \<times> json) list"

text \<open>The truth value Python gives a decoded value in \<open>if tarball_url:\<close>.\<close>

fun truthy :: "json \<Rightarrow> bool" where
  "truthy JNull = False"
| "truthy (JBool b) = b"
| "truthy (JInt n) = (n \<noteq> 0)"
| "truthy (JFloat x) = (x \<noteq> 0)"
| "truthy (JString s) = (s \<noteq> [])"
| "truthy (JArray xs) = (xs \<noteq> [])"
| "truthy (JObject kvs) = (kvs \<noteq> [])"

text \<open>\<open>d.get(key, default)\<close> on a \<open>dict\<close>.\<close>

definition dict_get :: "(ustr \<times> json) list \<Rightarrow> ustr \<Rightarrow> json \<Rightarrow> json" where
  "dict_get kvs key dflt = (case map_of kvs key of None \<Rightarrow> dflt | Some v \<Rightarrow> v)"

definition FALLBACK_URL :: json where
  "FALLBACK_URL = JString (ustr ''https://github.com/en-us/scowl/archive/refs/heads/master.tar.gz'')"

text \<open>
  The exceptions that the \<open>except\<close> clause of \<open>get_download_url\<close> catches:
  \<open>URLError\<close> with its subclasses, \<open>JSONDecodeError\<close> and \<open>KeyError\<close>.
\<close>

definition caught_by_resolver :: "py_exc \<Rightarrow> bool" where
  "caught_by_resolver e = (is_URLError e \<or> e = JSONDecodeError \<or> e = KeyError)"

text \<open>
  The body of the \<open>try\<close> in \<open>get_download_url\<close>. Its argument is the outcome of the
  request, of reading and decoding the response and of \<open>json.loads\<close>: the exception one
  of them raised, or the decoded value \<open>data\<close>. \<open>data.get\<close> exists only on a
  \<open>dict\<close>; on any other value the attribute lookup raises \<open>AttributeError\<close>. The body
  returns what \<open>data.get\<close> gave when that is truthy (\<open>Some\<close>), and otherwise runs to
  its end (\<open>None\<close>). Console output is not modelled.
\<close>

definition resolve_try :: "py_exc + json \<Rightarrow> py_exc + json option" where
  "resolve_try query =
     (case query of
        Inl e \<Rightarrow> Inl e
      | Inr data \<Rightarrow>
          (case data of
             JObject kvs \<Rightarrow>
               (let tarball_url = dict_get kvs (ustr ''tarball_url'') (JString []) in
                if truthy tarball_url then Inr (Some tarball_url) else Inr None)
           | _ \<Rightarrow> Inl AttributeError))"

text \<open>
  \<open>get_download_url\<close>: an exception of the body that the \<open>except\<close> clause names is
  swallowed and the fallback URL returned, as it is when the body runs to its end; any
  other exception leaves the function.
\<close>

definition get_download_url :: "py_exc + json \<Rightarrow> py_exc + json" where
  "get_download_url query =
     (case resolve_try query of
        Inl e \<Rightarrow> if caught_by_resolver e then Inr FALLBACK_URL else Inl e
      | Inr (Some tarball_url) \<Rightarrow> Inr tarball_url
      | Inr None \<Rightarrow> Inr FALLBACK_URL)"

section \<open>The downloader\<close>

text \<open>
  \<open>download_tarball\<close>. Its argument is the outcome of the transfer: the exception it
  raised, or the archive that was saved. A \<open>URLError\<close> becomes \<open>sys.exit(1)\<close>; any
  other exception is not caught.
\<close>

definition download_tarball :: "py_exc + tarball \<Rightarrow> py_exc + tarball" where
  "download_tarball transfer =
     (case transfer of
        Inl e \<Rightarrow> if is_URLError e then Inl (SystemExit 1) else Inl e
      | Inr tar \<Rightarrow> Inr tar)"

section \<open>The output writer\<close>

datatype out_file = OUT_TXT | OUT_JSON

text \<open>
  The state of a run: the exception that ended it, if one did, the content of the two
  output files (\<open>None\<close> for a file that does not exist), and the files the run opened
  for writing, in order.
\<close>

record run =
  raised :: "py_exc option"
  files :: "out_file \<Rightarrow> ustr option"
  written :: "out_file list"

text \<open>\<open>sep.join(xs)\<close>.\<close>

fun py_join :: "ustr \<Rightarrow> ustr list \<Rightarrow> ustr" where
  "py_join sep [] = []"
| "py_join sep [x] = x"
| "py_join sep (x # y # ys) = x @ sep @ py_join sep (y # ys)"

text \<open>
  \<open>json.dump\<close> with \<open>ensure_ascii=True\<close> of a string: between double quotes, the
  characters from space to tilde as they are, but for the quote and the backslash, which
  get a backslash; the short escapes for backspace, tab, newline, form feed and return;
  every other code point as \<open>\uXXXX\<close>, in lowercase hexadecimal, a code point above
  U+FFFF as a surrogate pair.
\<close>

definition hex_digit :: "nat \<Rightarrow> nat" where
  "hex_digit d = (if d < 10 then 48 + d else 87 + d)"

definition hex4 :: "nat \<Rightarrow> ustr" where
  "hex4 n = [hex_digit (n div 4096 mod 16), hex_digit (n div 256 mod 16),
             hex_digit (n div 16 mod 16), hex_digit (n mod 16)]"

definition escape_char :: "nat \<Rightarrow> ustr" where
  "escape_char c =
     (if c = 34 then [92, 34]
      else if c = 92 then [92, 92]
      else if 32 \<le> c \<and> c \<le> 126 then [c]
      else if c = 8 then [92, 98]
      else if c = 9 then [92, 116]
      else if c = 10 then [92, 110]
      else if c = 12 then [92, 102]
      else if c = 13 then [92, 114]
      else if c < 0x10000 then [92, 117] @ hex4 c
      else [92, 117] @ hex4 (0xD800 + (c - 0x10000) div 1024 mod 1024)
           @ [92, 117] @ hex4 (0xDC00 + (c - 0x10000) mod 1024))"

definition encode_string :: "ustr \<Rightarrow> ustr" where
  "encode_string s = [34] @ concat (map escape_char s) @ [34]"

text \<open>
  \<open>json.dump(words, f, indent=2, ensure_ascii=True)\<close> of a list of strings: \<open>[]\<close> for
  the empty list; otherwise each string on a line of its own, indented by two spaces,
  a comma after each but the last, between \<open>[\<close> and \<open>]\<close>.
\<close>

definition json_dump :: "ustr list \<Rightarrow> ustr" where
  "json_dump words =
     (if words = [] then ustr ''[]''
      else ustr ''['' @ [10, 32, 32]
           @ py_join ([44] @ [10, 32, 32]) (map encode_string words)
           @ [10] @ ustr '']'')"

definition txt_content :: "ustr list \<Rightarrow> ustr" where
  "txt_content words = py_join [10] words @ [10]"

definition json_content :: "ustr list \<Rightarrow> ustr" where
  "json_content words = json_dump words @ [10]"

text \<open>
  \<open>save_outputs\<close>. Opening a file for writing may raise \<open>OSError\<close> (\<open>writable\<close> says
  whether it succeeds), which nothing catches; a file that was opened gets its whole
  content.
\<close>

definition save_outputs :: "(out_file \<Rightarrow> bool) \<Rightarrow> ustr list \<Rightarrow> run \<Rightarrow> run" where
  "save_outputs writable words st =
     (if \<not> writable OUT_TXT then st\<lparr>raised := Some OSError\<rparr>
      else
        (let st1 = st\<lparr>files := (files st)(OUT_TXT \<mapsto> txt_content words),
                      written := written st @ [OUT_TXT]\<rparr> in
         if \<not> writable OUT_JSON then st1\<lparr>raised := Some OSError\<rparr>
         else st1\<lparr>files := (files st1)(OUT_JSON \<mapsto> json_content words),
                  written := written st1 @ [OUT_JSON]\<rparr>))"

section \<open>The entry point\<close>

text \<open>
  What the run meets outside the program: the outcome of the metadata request, the
  outcome of the transfer from the URL that was resolved, and whether each output file
  can be opened for writing.
\<close>

record world =
  api_query :: "py_exc + json"
  transfer :: "json \<Rightarrow> py_exc + tarball"
  writable :: "out_file \<Rightarrow> bool"

text \<open>
  \<open>main\<close>, from the output files as they are before the run. An exception that a stage
  raises ends the run there. The temporary directory holds only the downloaded archive
  and is not among the files modelled.
\<close>

definition main :: "ucd \<Rightarrow> world \<Rightarrow> (out_file \<Rightarrow> ustr option) \<Rightarrow> run" where
  "main db w fs =
     (let st = \<lparr>raised = None, files = fs, written = []\<rparr> in
      case get_download_url (api_query w) of
        Inl e \<Rightarrow> st\<lparr>raised := Some e\<rparr>
      | Inr url \<Rightarrow>
          (case download_tarball (transfer w url) of
             Inl e \<Rightarrow> st\<lparr>raised := Some e\<rparr>
           | Inr tar \<Rightarrow>
               (case extract_words db tar of
                  Inl e \<Rightarrow> st\<lparr>raised := Some e\<rparr>
                | Inr raw \<Rightarrow>
                    (let words = process_words db raw in
                     if words = [] then st\<lparr>raised := Some (SystemExit 1)\<rparr>
                     else save_outputs (writable w) words st))))"

text \<open>
  The exit status of the process: 0 when \<open>main\<close> returns, the argument of
  \<open>sys.exit\<close>, and 1 for an exception that nothing caught.
\<close>

definition exit_status :: "run \<Rightarrow> nat" where
  "exit_status st =
     (case raised st of None \<Rightarrow> 0 | Some (SystemExit n) \<Rightarrow> n | Some _ \<Rightarrow> 1)"

section \<open>Readers of the output files\<close>

text \<open>
  The lines of a text file read with universal newlines, each without its line end.
\<close>

definition read_lines :: "ustr \<Rightarrow> ustr list" where
  "read_lines s = split_lines (\<lambda>c. c = 10 \<or> c = 13) [] s"

text \<open>
  \<open>json.loads\<close> on documents that are an array of strings, as an automaton over the
  characters. The result is \<open>None\<close> for a text that is not JSON and for a JSON value
  that is not an array of strings. White space is allowed around every token; a string
  may hold any character from U+0020 on but the quote and the backslash, and the escapes
  of JSON; a \<open>\uXXXX\<close> escape for a high surrogate that another for a low surrogate
  follows gives one code point.
\<close>

definition is_json_ws :: "nat \<Rightarrow> bool" where
  "is_json_ws c = (c = 32 \<or> c = 9 \<or> c = 10 \<or> c = 13)"

definition hex_value :: "nat \<Rightarrow> nat option" where
  "hex_value c =
     (if 48 \<le> c \<and> c \<le> 57 then Some (c - 48)
      else if 97 \<le> c \<and> c \<le> 102 then Some (c - 87)
      else if 65 \<le> c \<and> c \<le> 70 then Some (c - 55)
      else None)"

definition simple_escape :: "nat \<Rightarrow> nat option" where
  "simple_escape c =
     (if c = 34 then Some 34
      else if c = 92 then Some 92
      else if c = 47 then Some 47
      else if c = 98 then Some 8
      else if c = 102 then Some 12
      else if c = 110 then Some 10
      else if c = 114 then Some 13
      else if c = 116 then Some 9
      else None)"

definition is_high_surrogate :: "nat \<Rightarrow> bool" where
  "is_high_surrogate u = (0xD800 \<le> u \<and> u \<le> 0xDBFF)"

definition is_low_surrogate :: "nat \<Rightarrow> bool" where
  "is_low_surrogate u = (0xDC00 \<le> u \<and> u \<le> 0xDFFF)"

definition join_surrogates :: "nat \<Rightarrow> nat \<Rightarrow> nat" where
  "join_surrogates hi lo = 0x10000 + (hi - 0xD800) * 1024 + (lo - 0xDC00)"

text \<open>
  The states: before the array; after \<open>[\<close>; in a string; after a backslash; in the
  hexadecimal digits of an escape (the value so far and the digits read); the same three
  with a high surrogate pending; after a string; after a comma; after \<open>]\<close>. A state
  holds the strings read so far and the one being read, both reversed.
\<close>

datatype jstate =
    JStart
  | JOpen
  | JStr "ustr list" ustr
  | JEsc "ustr list" ustr
  | JHex "ustr list" ustr nat nat
  | JPend "ustr list" ustr nat
  | JPendEsc "ustr list" ustr nat
  | JPendHex "ustr list" ustr nat nat nat
  | JAfter "ustr list"
  | JComma "ustr list"
  | JDone "ustr list"

text \<open>A character inside a string, and the character after a backslash.\<close>

definition step_str :: "ustr list \<Rightarrow> ustr \<Rightarrow> nat \<Rightarrow> jstate option" where
  "step_str ws acc c =
     (if c = 34 then Some (JAfter (rev acc # ws))
      else if c = 92 then Some (JEsc ws acc)
      else if c < 32 then None
      else Some (JStr ws (c # acc)))"

definition step_esc :: "ustr list \<Rightarrow> ustr \<Rightarrow> nat \<Rightarrow> jstate option" where
  "step_esc ws acc c =
     (if c = 117 then Some (JHex ws acc 0 0)
      else case simple_escape c of None \<Rightarrow> None | Some x \<Rightarrow> Some (JStr ws (x # acc)))"

text \<open>The code point of a finished \<open>\uXXXX\<close> escape.\<close>

definition after_hex :: "ustr list \<Rightarrow> ustr \<Rightarrow> nat \<Rightarrow> jstate" where
  "after_hex ws acc u = (if is_high_surrogate u then JPend ws acc u else JStr ws (u # acc))"

fun jstep :: "jstate \<Rightarrow> nat \<Rightarrow> jstate option" where
  "jstep JStart c =
     (if is_json_ws c then Some JStart else if c = 91 then Some JOpen else None)"
| "jstep JOpen c =
     (if is_json_ws c then Some JOpen
      else if c = 34 then Some (JStr [] [])
      else if c = 93 then Some (JDone [])
      else None)"
| "jstep (JStr ws acc) c = step_str ws acc c"
| "jstep (JEsc ws acc) c = step_esc ws acc c"
| "jstep (JHex ws acc v k) c =
     (case hex_value c of
        None \<Rightarrow> None
      | Some d \<Rightarrow>
          if k = 3 then Some (after_hex ws acc (16 * v + d))
          else Some (JHex ws acc (16 * v + d) (k + 1)))"
| "jstep (JPend ws acc hi) c =
     (if c = 92 then Some (JPendEsc ws acc hi) else step_str ws (hi # acc) c)"
| "jstep (JPendEsc ws acc hi) c =
     (if c = 117 then Some (JPendHex ws acc hi 0 0) else step_esc ws (hi # acc) c)"
| "jstep (JPendHex ws acc hi v k) c =
     (case hex_value c of
        None \<Rightarrow> None
      | Some d \<Rightarrow>
          if k = 3 then
            (if is_low_surrogate (16 * v + d)
             then Some (JStr ws (join_surrogates hi (16 * v + d) # acc))
             else Some (after_hex ws (hi # acc) (16 * v + d)))
          else Some (JPendHex ws acc hi (16 * v + d) (k + 1)))"
| "jstep (JAfter ws) c =
     (if is_json_ws c then Some (JAfter ws)
      else if c = 44 then Some (JComma ws)
      else if c = 93 then Some (JDone ws)
      else None)"
| "jstep (JComma ws) c =
     (if is_json_ws c then Some (JComma ws)
      else if c = 34 then Some (JStr ws [])
      else None)"
| "jstep (JDone ws) c = (if is_json_ws c then Some (JDone ws) else None)"

fun jrun :: "jstate \<Rightarrow> ustr \<Rightarrow> jstate option" where
  "jrun st [] = Some st"
| "jrun st (c # cs) = (case jstep st c of None \<Rightarrow> None | Some st' \<Rightarrow> jrun st' cs)"

definition json_loads_strings :: "ustr \<Rightarrow> ustr list option" where
  "json_loads_strings s =
     (case jrun JStart s of Some (JDone ws) \<Rightarrow> Some (rev ws) | _ \<Rightarrow> None)"

section \<open>Notions used in the statements and proofs\<close>

text \<open>
  What of a character the pattern can see when case is set aside, as a pair. The first
  component is the ASCII character written in lowercase, also for the four code points
  beyond ASCII that are a case of an ASCII letter: U+0130 and U+0131 of \<open>i\<close>, U+017F of
  \<open>s\<close>, U+212A of \<open>k\<close>; every other code point has none. The second is the decimal
  value.
\<close>

definition case_key :: "ucd \<Rightarrow> nat \<Rightarrow> nat option \<times> nat option" where
  "case_key db c =
     (if c < 128 then Some (ascii_lower c)
      else if c = 0x130 \<or> c = 0x131 then Some 0x69
      else if c = 0x17F then Some 0x73
      else if c = 0x212A then Some 0x6B
      else None,
      decimal_value db c)"

text \<open>
  Two characters are the same up to case when they have the same key: the two cases of an
  ASCII letter are, with the code points above, and so are any two code points beyond
  ASCII that are not among those four and are no decimal digits, hence the two cases of
  every other letter. Two names are the same up to case when they are so character by
  character.
\<close>

definition case_rel :: "ucd \<Rightarrow> nat \<Rightarrow> nat \<Rightarrow> bool" where
  "case_rel db x y = (case_key db x = case_key db y)"

definition same_up_to_case :: "ucd \<Rightarrow> ustr \<Rightarrow> ustr \<Rightarrow> bool" where
  "same_up_to_case db a b = (map (case_key db) a = map (case_key db) b)"

text \<open>The relation on the groups and on the states of the matcher.\<close>

definition grp_rel :: "ucd \<Rightarrow> groups \<Rightarrow> groups \<Rightarrow> bool" where
  "grp_rel db g h = (\<forall>n. rel_option (list_all2 (case_rel db)) (g n) (h n))"

definition st_rel :: "ucd \<Rightarrow> ustr \<times> groups \<Rightarrow> ustr \<times> groups \<Rightarrow> bool" where
  "st_rel db a b = (list_all2 (case_rel db) (fst a) (fst b) \<and> grp_rel db (snd a) (snd b))"

text \<open>A pattern whose literals are all ASCII, as those of \<open>WORD_FILE_PATTERN\<close> are.\<close>

fun ascii_atom :: "atom \<Rightarrow> bool" where
  "ascii_atom (Lit p) = (p < 128)"
| "ascii_atom Dot = True"
| "ascii_atom Digit = True"

fun ascii_rx :: "rx \<Rightarrow> bool" where
  "ascii_rx (One a) = ascii_atom a"
| "ascii_rx (Rep0 a) = ascii_atom a"
| "ascii_rx (Rep1 a) = ascii_atom a"
| "ascii_rx (Opt a) = ascii_atom a"
| "ascii_rx (Str w) = list_all (\<lambda>p. p < 128) w"
| "ascii_rx (Seq r1 r2) = (ascii_rx r1 \<and> ascii_rx r2)"
| "ascii_rx (Alt r1 r2) = (ascii_rx r1 \<and> ascii_rx r2)"
| "ascii_rx (Grp n r) = ascii_rx r"
| "ascii_rx Dollar = True"

text \<open>
  A character table that holds U+0130, the capital I with a dot above: \<open>str.lower\<close>
  turns it into two code points, \<open>i\<close> and the combining dot U+0307.
\<close>

definition ucd_dotted :: ucd where
  "ucd_dotted =
     \<lparr>alpha_ext = (\<lambda>c. c = 0x130), decimal_ext = (\<lambda>c. None),
      lower_ext = (\<lambda>c. if c = 0x130 then [0x69, 0x307] else [c])\<rparr>"

text \<open>
  The characters that a JSON string holds as they are: printable ASCII but for the quote
  and the backslash.
\<close>

definition plain :: "nat \<Rightarrow> bool" where
  "plain c = (32 \<le> c \<and> c \<le> 126 \<and> c \<noteq> 34 \<and> c \<noteq> 92)"

text \<open>
  Two runs to try \<open>main\<close> on. In both the metadata request fails and the fallback
  archive downloads. In the first the archive holds one word file, of level 85; in the
  second one of level 10, with the lines \<open>apple\<close> and \<open>it's\<close>.
\<close>

definition tar_rare :: tarball where
  "tar_rare = Members [\<lparr>m_name = ustr ''scowl/final/english-words.85'',
                        m_body = Text (ustr ''zyzzyva'')\<rparr>]"

definition tar_common :: tarball where
  "tar_common = Members [\<lparr>m_name = ustr ''scowl/final/english-words.10'',
                          m_body = Text (ustr ''apple'' @ [10] @ ustr ''it's'' @ [10])\<rparr>]"

definition world_rare :: world where
  "world_rare =
     \<lparr>api_query = Inl URLError, transfer = (\<lambda>url. Inr tar_rare), writable = (\<lambda>f. True)\<rparr>"

definition world_common :: world where
  "world_common =
     \<lparr>api_query = Inl URLError, transfer = (\<lambda>url. Inr tar_common), writable = (\<lambda>f. True)\<rparr>"

section \<open>Properties of the word filter\<close>

lemma lower_char_ascii: "c < 128 \<Longrightarrow> lower_char db c = [ascii_lower c]"
  by (simp add: lower_char_def ascii_lower_def)

lemma py_lower_ascii: "encodes_ascii s \<Longrightarrow> py_lower db s = map ascii_lower s"
  by (induction s) (simp_all add: py_lower_def encodes_ascii_def lower_char_ascii)

lemma ascii_lower_letter:
  "c < 128 \<Longrightarrow> is_alpha db c \<Longrightarrow> is_ascii_lower (ascii_lower c)"
  by (auto simp: is_alpha_def ascii_lower_def is_ascii_letter_def is_ascii_upper_def
      is_ascii_lower_def)

lemma accepted_clean_word:
  assumes "py_isalpha db w" "encodes_ascii w" "length w = 5"
  shows "clean_word (py_lower db w)"
proof -
  have "list_all is_ascii_lower (map ascii_lower w)"
    using assms(1,2)
    by (auto simp: py_isalpha_def encodes_ascii_def list_all_iff ascii_lower_letter)
  with assms show ?thesis
    by (simp add: clean_word_def py_lower_ascii)
qed

lemma clean_word_lower_id: "clean_word w \<Longrightarrow> py_lower db w = w"
proof -
  assume a: "clean_word w"
  then have "encodes_ascii w"
    by (auto simp: clean_word_def encodes_ascii_def list_all_iff is_ascii_lower_def)
  moreover from a have "map ascii_lower w = w"
    by (auto simp: clean_word_def list_all_iff ascii_lower_def is_ascii_lower_def
        is_ascii_upper_def intro!: map_idI)
  ultimately show ?thesis by (simp add: py_lower_ascii)
qed

text \<open>
  The loop invariant: \<open>seen\<close> holds exactly the members of \<open>clean\<close>, which has no
  duplicate and only clean words.
\<close>

lemma process_loop_inv:
  assumes "process_loop db (seen, clean) raw = (seen', clean')"
    and "seen = set clean" and "distinct clean" and "list_all clean_word clean"
  shows "seen' = set clean' \<and> distinct clean' \<and> list_all clean_word clean'"
  using assms
proof (induction raw arbitrary: seen clean)
  case Nil
  then show ?case by auto
next
  case (Cons line rest)
  show ?case
  proof (cases "py_strip line = [] \<or> startswith_hash (py_strip line)
       \<or> \<not> py_isalpha db (py_strip line) \<or> \<not> encodes_ascii (py_strip line)
       \<or> length (py_strip line) \<noteq> 5 \<or> py_lower db (py_strip line) \<in> seen")
    case True
    then have "process_loop db (seen, clean) (line # rest) = process_loop db (seen, clean) rest"
      by (auto simp: Let_def)
    with Cons show ?thesis by simp
  next
    case False
    let ?w = "py_lower db (py_strip line)"
    from False have step: "process_loop db (seen, clean) (line # rest)
        = process_loop db (insert ?w seen, clean @ [?w]) rest"
      by (auto simp: Let_def)
    from False have cw: "clean_word ?w" by (simp add: accepted_clean_word)
    from False Cons.prems(2) have "?w \<notin> set clean" by simp
    with Cons.prems cw have "insert ?w seen = set (clean @ [?w])" "distinct (clean @ [?w])"
      "list_all clean_word (clean @ [?w])" by auto
    with Cons.IH[of "insert ?w seen" "clean @ [?w]"] Cons.prems(1) step show ?thesis by simp
  qed
qed

lemma process_words_props:
  "distinct (process_words db raw) \<and> list_all clean_word (process_words db raw)
   \<and> sorted (process_words db raw)"
proof -
  obtain seen' clean' where r: "process_loop db ({}, []) raw = (seen', clean')"
    by (cases "process_loop db ({}, []) raw")
  from process_loop_inv[OF r] have "distinct clean'" "list_all clean_word clean'" by simp_all
  then show ?thesis
    by (simp add: process_words_def r list_all_iff)
qed

lemma distinct_count_list_one: "distinct xs \<Longrightarrow> x \<in> set xs \<Longrightarrow> count_list xs x = 1"
  by (induction xs) (auto simp: count_list_0_iff)

lemmas filter_eval = process_words_def ustr_def py_strip_def is_space_def startswith_hash_def
  py_isalpha_def is_alpha_def is_ascii_letter_def is_ascii_upper_def is_ascii_lower_def
  encodes_ascii_def py_lower_def lower_char_def Let_def

text \<open>
  Claim C1. For every list of raw lines, every word that \<open>process_words\<close> returns has
  exactly five characters, each a lowercase ASCII letter \<open>a\<close> to \<open>z\<close>, and occurs
  exactly once in the returned list; the returned words stay pairwise different after
  case folding.
\<close>

theorem process_words_invariant:
  "(\<forall>w \<in> set (process_words db raw).
      length w = 5 \<and> (\<forall>c \<in> set w. 97 \<le> c \<and> c \<le> 122)
      \<and> count_list (process_words db raw) w = 1)
   \<and> distinct (map (py_lower db) (process_words db raw))"
proof -
  let ?out = "process_words db raw"
  from process_words_props[of db raw] have d: "distinct ?out" and c: "list_all clean_word ?out"
    by simp_all
  have "map (py_lower db) ?out = ?out"
    using c by (intro map_idI) (simp add: list_all_iff clean_word_lower_id)
  with d have "distinct (map (py_lower db) ?out)" by simp
  moreover have "length w = 5 \<and> (\<forall>c \<in> set w. 97 \<le> c \<and> c \<le> 122) \<and> count_list ?out w = 1"
    if "w \<in> set ?out" for w
  proof -
    from c that have "clean_word w" by (simp add: list_all_iff)
    then have "length w = 5" "\<forall>c \<in> set w. 97 \<le> c \<and> c \<le> 122"
      by (simp_all add: clean_word_def list_all_iff is_ascii_lower_def)
    with d that show ?thesis by (simp add: distinct_count_list_one)
  qed
  ultimately show ?thesis by blast
qed

theorem process_words_invariant_witness:
  "ustr ''apple'' \<in> set (process_words ucd_latin1 (map ustr [''Apple'', '' apple'', ''APPLE'']))
   \<and> length (ustr ''apple'') = 5
   \<and> (97::nat) \<le> 112 \<and> (112::nat) \<le> 122
   \<and> count_list (process_words ucd_latin1 (map ustr [''Apple'', '' apple'', ''APPLE'']))
        (ustr ''apple'') = 1"
proof -
  have mem: "ustr ''apple''
      \<in> set (process_words ucd_latin1 (map ustr [''Apple'', '' apple'', ''APPLE'']))"
    by (simp add: filter_eval)
  from process_words_invariant[of ucd_latin1 "map ustr [''Apple'', '' apple'', ''APPLE'']"] mem
  have "count_list (process_words ucd_latin1 (map ustr [''Apple'', '' apple'', ''APPLE'']))
        (ustr ''apple'') = 1"
    by blast
  with mem show ?thesis by (simp add: ustr_def)
qed

text \<open>
  Claim C2. On the nine raw lines \<open>apple\<close>, \<open>APPLE\<close>, \<open>a cat\<close>, \<open>brick\<close>,
  \<open>#comment\<close>, \<open>ab'cd\<close>, \<open>12345\<close>, \<open>fjord\<close> and the empty line,
  \<open>process_words\<close> returns exactly \<open>apple\<close>, \<open>brick\<close>, \<open>fjord\<close>, in that order,
  whatever the character table says above U+00FF.
\<close>

theorem process_words_scenario:
  "process_words db (map ustr [''apple'', ''APPLE'', ''a cat'', ''brick'', ''#comment'',
      ''ab'cd'', ''12345'', ''fjord'', ''''])
   = map ustr [''apple'', ''brick'', ''fjord'']"
  by (simp add: filter_eval)

text \<open>
  Claim C3. For every list of raw lines the list that \<open>process_words\<close> returns is
  strictly ascending in the lexicographic order on code points: each element is less
  than its right neighbour.
\<close>

theorem process_words_strictly_ascending:
  "\<forall>i. Suc i < length (process_words db raw) \<longrightarrow>
       process_words db raw ! i < process_words db raw ! Suc i"
proof -
  from process_words_props[of db raw] have "sorted_wrt (<) (process_words db raw)"
    by (simp add: strict_sorted_iff)
  then show ?thesis
    by (simp add: sorted_wrt_iff_nth_less)
qed

theorem process_words_strictly_ascending_witness:
  "Suc 0 < length (process_words ucd_latin1 (map ustr [''fjord'', ''brick'', ''Fjord'']))
   \<and> process_words ucd_latin1 (map ustr [''fjord'', ''brick'', ''Fjord'']) ! 0
       < process_words ucd_latin1 (map ustr [''fjord'', ''brick'', ''Fjord'']) ! Suc 0"
proof -
  have len: "Suc 0 < length (process_words ucd_latin1 (map ustr [''fjord'', ''brick'', ''Fjord'']))"
    by (simp add: filter_eval)
  with process_words_strictly_ascending[of ucd_latin1 "map ustr [''fjord'', ''brick'', ''Fjord'']"]
  show ?thesis by blast
qed

subsection \<open>The alphabetic check\<close>

lemma py_isalpha_all: "py_isalpha db word \<Longrightarrow> c \<in> set word \<Longrightarrow> is_alpha db c"
  by (simp add: py_isalpha_def list_all_iff)

lemma latin1_alpha_range: "latin1_alpha c \<Longrightarrow> 128 \<le> c \<and> c < 256"
  by (auto simp: latin1_alpha_def)

lemma process_loop_skip:
  "\<not> py_isalpha db (py_strip line) \<or> \<not> encodes_ascii (py_strip line) \<Longrightarrow>
     process_loop db (seen, clean) (line # rest) = process_loop db (seen, clean) rest"
  by (auto simp: Let_def)

text \<open>
  Claim C7, as amended. Step 3 of the acceptance predicate, \<open>word.isalpha()\<close>, rejects
  every token with a character that is not an alphabetic letter, in particular every
  token with an ASCII character that is not a letter (punctuation, digits, hyphens,
  apostrophes), and the loop then goes on to the next line. Accented letters are
  alphabetic: a non-empty token of ASCII letters and accented Latin-1 letters passes
  step 3, and a token with an accented letter is rejected by the ASCII check of step 4.
\<close>

theorem step3_rejects_non_alphabetic:
  "(c \<in> set word \<and> \<not> is_alpha db c \<longrightarrow> \<not> py_isalpha db word)
   \<and> (c \<in> set word \<and> c < 128 \<and> \<not> is_ascii_letter c \<longrightarrow> \<not> py_isalpha db word)
   \<and> (\<not> py_isalpha db (py_strip line) \<longrightarrow>
         process_loop db (seen, clean) (line # rest) = process_loop db (seen, clean) rest)
   \<and> (word \<noteq> [] \<and> list_all (\<lambda>c. is_ascii_letter c \<or> latin1_alpha c) word \<longrightarrow>
         py_isalpha db word)
   \<and> (c \<in> set word \<and> latin1_alpha c \<longrightarrow> \<not> encodes_ascii word)
   \<and> (\<not> encodes_ascii (py_strip line) \<longrightarrow>
         process_loop db (seen, clean) (line # rest) = process_loop db (seen, clean) rest)"
proof -
  have a: "\<not> py_isalpha db word" if "c \<in> set word" "\<not> is_alpha db c"
    using that py_isalpha_all[of db word c] by blast
  have b: "\<not> py_isalpha db word" if "c \<in> set word" "c < 128" "\<not> is_ascii_letter c"
  proof -
    from that(2,3) have "\<not> is_alpha db c" by (simp add: is_alpha_def)
    with that(1) show ?thesis by (rule a)
  qed
  have d: "py_isalpha db word"
    if "word \<noteq> []" "list_all (\<lambda>c. is_ascii_letter c \<or> latin1_alpha c) word"
  proof -
    have "is_alpha db x" if "is_ascii_letter x \<or> latin1_alpha x" for x
      using that latin1_alpha_range[of x]
      by (auto simp: is_alpha_def is_ascii_letter_def is_ascii_upper_def is_ascii_lower_def)
    with that show ?thesis by (simp add: py_isalpha_def list_all_iff)
  qed
  have e: "\<not> encodes_ascii word" if "c \<in> set word" "latin1_alpha c"
  proof
    assume "encodes_ascii word"
    with that(1) have "c < 128" by (simp add: encodes_ascii_def list_all_iff)
    with latin1_alpha_range[OF that(2)] show False by simp
  qed
  from a b d e process_loop_skip[of db line seen clean rest] show ?thesis by blast
qed

theorem step3_rejects_non_alphabetic_witness:
  "39 \<in> set (ustr ''ab'cd'') \<and> \<not> is_alpha ucd_latin1 39 \<and> (39::nat) < 128 \<and> \<not> is_ascii_letter 39
   \<and> \<not> py_isalpha ucd_latin1 (ustr ''ab'cd'')
   \<and> \<not> py_isalpha ucd_latin1 (py_strip (ustr ''ab'cd''))
   \<and> process_loop ucd_latin1 ({}, []) [ustr ''ab'cd''] = process_loop ucd_latin1 ({}, []) []
   \<and> [99, 97, 102, 0xE9, 115] \<noteq> ([] :: nat list)
   \<and> list_all (\<lambda>c. is_ascii_letter c \<or> latin1_alpha c) [99, 97, 102, 0xE9, 115]
   \<and> py_isalpha ucd_latin1 [99, 97, 102, 0xE9, 115]
   \<and> 0xE9 \<in> set [99, 97, 102, 0xE9, 115] \<and> latin1_alpha 0xE9
   \<and> \<not> encodes_ascii [99, 97, 102, 0xE9, 115]
   \<and> \<not> encodes_ascii (py_strip [99, 97, 102, 0xE9, 115])
   \<and> process_loop ucd_latin1 ({}, []) [[99, 97, 102, 0xE9, 115]] = process_loop ucd_latin1 ({}, []) []"
proof -
  have h1: "39 \<in> set (ustr ''ab'cd'')" "\<not> is_alpha ucd_latin1 39" "(39::nat) < 128"
    "\<not> is_ascii_letter 39"
    by (simp_all add: ustr_def is_alpha_def is_ascii_letter_def is_ascii_upper_def is_ascii_lower_def)
  have h2: "py_strip (ustr ''ab'cd'') = ustr ''ab'cd''"
    by (simp add: ustr_def py_strip_def is_space_def)
  have h3: "[99, 97, 102, 0xE9, 115] \<noteq> ([] :: nat list)"
    "list_all (\<lambda>c. is_ascii_letter c \<or> latin1_alpha c) [99, 97, 102, 0xE9, 115]"
    "0xE9 \<in> set [99, 97, 102, 0xE9, 115]" "latin1_alpha 0xE9"
    by (simp_all add: is_ascii_letter_def is_ascii_upper_def is_ascii_lower_def latin1_alpha_def)
  have h4: "py_strip [99, 97, 102, 0xE9, 115] = [99, 97, 102, 0xE9, 115]"
    by (simp add: py_strip_def is_space_def)
  from h1 h2 step3_rejects_non_alphabetic[of 39 "ustr ''ab'cd''" ucd_latin1 "ustr ''ab'cd''" "{}" "[]" "[]"]
  have p1: "\<not> py_isalpha ucd_latin1 (ustr ''ab'cd'')"
    "\<not> py_isalpha ucd_latin1 (py_strip (ustr ''ab'cd''))"
    "process_loop ucd_latin1 ({}, []) [ustr ''ab'cd''] = process_loop ucd_latin1 ({}, []) []"
    by simp_all
  from h3 h4 step3_rejects_non_alphabetic[of "0xE9" "[99, 97, 102, 0xE9, 115]" ucd_latin1
      "[99, 97, 102, 0xE9, 115]" "{}" "[]" "[]"]
  have p2: "py_isalpha ucd_latin1 [99, 97, 102, 0xE9, 115]"
    "\<not> encodes_ascii [99, 97, 102, 0xE9, 115]"
    "\<not> encodes_ascii (py_strip [99, 97, 102, 0xE9, 115])"
    "process_loop ucd_latin1 ({}, []) [[99, 97, 102, 0xE9, 115]] = process_loop ucd_latin1 ({}, []) []"
    by simp_all
  from h1 h3 p1 p2 show ?thesis by blast
qed

text \<open>
  The claim as first stated fails: the five-character token \<open>c\<close>, \<open>a\<close>, \<open>f\<close>,
  U+00E9, \<open>s\<close> holds an accented letter and passes step 3; step 4 rejects it.
\<close>

theorem step3_accepts_accented_letter:
  "0xE9 \<in> set [99, 97, 102, 0xE9, 115] \<and> latin1_alpha 0xE9
   \<and> py_isalpha ucd_latin1 [99, 97, 102, 0xE9, 115]
   \<and> \<not> encodes_ascii [99, 97, 102, 0xE9, 115]
   \<and> process_words ucd_latin1 [[99, 97, 102, 0xE9, 115]] = []"
  by (simp add: filter_eval latin1_alpha_def)

section \<open>Properties of the archive scanner\<close>

lemma greedy_sound:
  "r \<in> set (greedy p s) \<Longrightarrow> \<exists>u. s = u @ r \<and> list_all p u"
proof (induction s)
  case Nil
  then show ?case by simp
next
  case (Cons c cs)
  show ?case
  proof (cases "r = c # cs")
    case True
    then show ?thesis by simp
  next
    case False
    with Cons.prems have pc: "p c" and "r \<in> set (greedy p cs)"
      by (auto split: if_splits)
    with Cons.IH obtain u where "cs = u @ r" "list_all p u" by blast
    with pc have "c # cs = (c # u) @ r \<and> list_all p (c # u)" by simp
    then show ?thesis by blast
  qed
qed

lemma rx_run_suffix:
  "(s', g') \<in> set (rx_run db r (s, g)) \<Longrightarrow> \<exists>u. s = u @ s'"
proof (induction r arbitrary: s g s' g')
  case (One a)
  then show ?case by (auto split: list.splits if_splits)
next
  case (Rep0 a)
  then show ?case by (auto dest: greedy_sound)
next
  case (Rep1 a)
  then obtain c cs where s: "s = c # cs" and "s' \<in> set (greedy (atom_ok db a) cs)"
    by (auto split: list.splits if_splits)
  then obtain u where "cs = u @ s'" by (blast dest: greedy_sound)
  with s have "s = (c # u) @ s'" by simp
  then show ?case by blast
next
  case (Opt a)
  then show ?case by (auto split: list.splits if_splits)
next
  case (Str w)
  then have "s' = drop (length w) s" by (auto split: if_splits)
  then have "s = take (length w) s @ s'" by simp
  then show ?case by blast
next
  case (Seq r1 r2)
  from Seq.prems obtain s1 g1 where a: "(s1, g1) \<in> set (rx_run db r1 (s, g))"
    and b: "(s', g') \<in> set (rx_run db r2 (s1, g1))" by auto
  from Seq.IH(1)[OF a] obtain u where "s = u @ s1" by blast
  moreover from Seq.IH(2)[OF b] obtain v where "s1 = v @ s'" by blast
  ultimately have "s = (u @ v) @ s'" by simp
  then show ?case by blast
next
  case (Alt r1 r2)
  then show ?case by auto
next
  case (Grp n r)
  then show ?case by auto
next
  case Dollar
  then show ?case by (auto split: if_splits)
qed


lemma rx_run_Seq_elim:
  assumes "(s', g') \<in> set (rx_run db (Seq r1 r2) st)"
  obtains s1 g1 where "(s1, g1) \<in> set (rx_run db r1 st)"
    and "(s', g') \<in> set (rx_run db r2 (s1, g1))"
  using assms by auto

lemma pattern_shape:
  assumes "(s', g') \<in> set (rx_run db WORD_FILE_PATTERN (f, g0))"
  shows "\<exists>pre digs. f = pre @ [46] @ digs @ s' \<and> digs \<noteq> [] \<and> list_all (is_decimal db) digs
           \<and> (s' = [] \<or> s' = [10]) \<and> g' 2 = Some digs"
proof -
  obtain A where P: "WORD_FILE_PATTERN
      = Seq (Grp 1 A) (Seq (One (Lit 46)) (Seq (Grp 2 (Rep1 Digit)) Dollar))"
    by (simp add: WORD_FILE_PATTERN_def)
  from assms[unfolded P] obtain s1 g1 where
    a: "(s1, g1) \<in> set (rx_run db (Grp 1 A) (f, g0))"
    and b: "(s', g') \<in> set (rx_run db (Seq (One (Lit 46)) (Seq (Grp 2 (Rep1 Digit)) Dollar)) (s1, g1))"
    by (rule rx_run_Seq_elim)
  from rx_run_suffix[OF a] obtain pre where f: "f = pre @ s1" by blast
  from b obtain s2 g2 where c: "(s2, g2) \<in> set (rx_run db (One (Lit 46)) (s1, g1))"
    and d: "(s', g') \<in> set (rx_run db (Seq (Grp 2 (Rep1 Digit)) Dollar) (s2, g2))"
    by (rule rx_run_Seq_elim)
  from c have s1: "s1 = 46 # s2" and g2: "g2 = g1"
    by (auto simp: lit_match_def is_ascii_letter_def is_ascii_upper_def is_ascii_lower_def
        split: list.splits if_splits)
  from d obtain s3 g3 where e: "(s3, g3) \<in> set (rx_run db (Grp 2 (Rep1 Digit)) (s2, g2))"
    and h: "(s', g') \<in> set (rx_run db Dollar (s3, g3))"
    by (rule rx_run_Seq_elim)
  from h have s3: "s3 = s'" "g3 = g'" and tail: "s' = [] \<or> s' = [10]"
    by (auto split: if_splits)
  from e obtain c cs where s2: "s2 = c # cs" and dc: "is_decimal db c"
    and gr: "s3 \<in> set (greedy (is_decimal db) cs)"
    and g3: "g3 = g2(2 \<mapsto> take (length s2 - length s3) s2)"
    by (auto split: list.splits if_splits)
  from greedy_sound[OF gr] obtain u where cs: "cs = u @ s3" and du': "list_all (is_decimal db) u"
    by blast
  from s2 cs have "take (length s2 - length s3) s2 = c # u" by simp
  with g3 s3 have "g' 2 = Some (c # u)" by simp
  moreover from f s1 s2 cs s3 have "f = pre @ [46] @ (c # u) @ s'" by simp
  moreover from dc du' have "list_all (is_decimal db) (c # u)" by simp
  ultimately show ?thesis using tail by blast
qed

lemma re_match_shape:
  assumes "re_match db WORD_FILE_PATTERN f = Some g"
  shows "\<exists>pre digs tail. f = pre @ [46] @ digs @ tail \<and> digs \<noteq> [] \<and> list_all (is_decimal db) digs
           \<and> (tail = [] \<or> tail = [10]) \<and> g 2 = Some digs"
proof -
  from assms obtain rest where "(rest, g) \<in> set (rx_run db WORD_FILE_PATTERN (f, Map.empty))"
    by (auto simp: re_match_def split: list.splits)
  from pattern_shape[OF this] show ?thesis by blast
qed

lemma int_digits_total:
  "list_all (is_decimal db) s \<Longrightarrow> \<exists>n. int_digits db acc s = Some n"
  by (induction s arbitrary: acc) (auto simp: is_decimal_def)

lemma qualifies_no_exception: "qualifies db name \<noteq> Inl e"
proof (cases "re_match db WORD_FILE_PATTERN (basename name)")
  case None
  then show ?thesis by (simp add: qualifies_def)
next
  case (Some g)
  from re_match_shape[OF Some] obtain digs where d: "digs \<noteq> []" "list_all (is_decimal db) digs"
    "g 2 = Some digs" by blast
  from int_digits_total[OF d(2)] obtain n where "int_digits db 0 digs = Some n" by blast
  with d Some show ?thesis by (simp add: qualifies_def int_of_group_def)
qed

lemmas rx_eval = qualifies_def basename_def re_match_def WORD_FILE_PATTERN_def ustr_def lit_match_def
  is_ascii_letter_def is_ascii_upper_def is_ascii_lower_def ascii_lower_def decimal_value_def is_decimal_def
  int_of_group_def MIN_LEVEL_def MAX_LEVEL_def Let_def

text \<open>
  Claim C5. A member is read only if its file name ends in a dot and a run of decimal
  digits (before at most one final newline), the run parses as an integer, and that
  level lies between \<open>MIN_LEVEL\<close> and \<open>MAX_LEVEL\<close>, both included. The bounds are 10
  and 70: \<open>english-words.85\<close> is left out and \<open>english-words.60\<close> is read.
\<close>

theorem qualifies_level_in_bounds:
  "(qualifies db name = Inr True \<longrightarrow>
      (\<exists>pre digs tail level.
          basename name = pre @ [46] @ digs @ tail \<and> digs \<noteq> []
          \<and> list_all (is_decimal db) digs \<and> (tail = [] \<or> tail = [10])
          \<and> int_digits db 0 digs = Some level \<and> MIN_LEVEL \<le> level \<and> level \<le> MAX_LEVEL))
   \<and> MIN_LEVEL = 10 \<and> MAX_LEVEL = 70
   \<and> qualifies db (ustr ''english-words.85'') = Inr False
   \<and> qualifies db (ustr ''english-words.60'') = Inr True"
proof -
  have "\<exists>pre digs tail level.
          basename name = pre @ [46] @ digs @ tail \<and> digs \<noteq> []
          \<and> list_all (is_decimal db) digs \<and> (tail = [] \<or> tail = [10])
          \<and> int_digits db 0 digs = Some level \<and> MIN_LEVEL \<le> level \<and> level \<le> MAX_LEVEL"
    if q: "qualifies db name = Inr True"
  proof -
    from q obtain g where m: "re_match db WORD_FILE_PATTERN (basename name) = Some g"
      by (auto simp: qualifies_def split: option.splits)
    from re_match_shape[OF m] obtain pre digs tail where
      sh: "basename name = pre @ [46] @ digs @ tail" "digs \<noteq> []" "list_all (is_decimal db) digs"
        "tail = [] \<or> tail = [10]" "g 2 = Some digs" by blast
    from int_digits_total[OF sh(3)] obtain level where l: "int_digits db 0 digs = Some level"
      by blast
    with q m sh(2,5) have "MIN_LEVEL \<le> level \<and> level \<le> MAX_LEVEL"
      by (simp add: qualifies_def int_of_group_def)
    with sh l show ?thesis unfolding is_decimal_def by blast
  qed
  moreover have "qualifies db (ustr ''english-words.85'') = Inr False"
    by (simp add: rx_eval)
  moreover have "qualifies db (ustr ''english-words.60'') = Inr True"
    by (simp add: rx_eval)
  ultimately show ?thesis by (simp add: MIN_LEVEL_def MAX_LEVEL_def)
qed

theorem qualifies_level_in_bounds_witness:
  "qualifies ucd_latin1 (ustr ''american-words.35'') = Inr True
   \<and> (\<exists>pre digs tail level.
          basename (ustr ''american-words.35'') = pre @ [46] @ digs @ tail \<and> digs \<noteq> []
          \<and> list_all (is_decimal ucd_latin1) digs \<and> (tail = [] \<or> tail = [10])
          \<and> int_digits ucd_latin1 0 digs = Some level \<and> MIN_LEVEL \<le> level \<and> level \<le> MAX_LEVEL)"
proof -
  have q: "qualifies ucd_latin1 (ustr ''american-words.35'') = Inr True"
    by (simp add: rx_eval)
  with qualifies_level_in_bounds[of ucd_latin1 "ustr ''american-words.35''"]
  show ?thesis by blast
qed

lemma basename_strip: "47 \<notin> set base \<Longrightarrow> basename (dir @ [47] @ base) = base"
proof -
  assume a: "47 \<notin> set base"
  have "takeWhile (\<lambda>c. c \<noteq> 47) (rev base @ 47 # rev dir) = rev base"
    using a by (subst takeWhile_append2) auto
  then show ?thesis by (simp add: basename_def)
qed

lemma basename_id: "47 \<notin> set base \<Longrightarrow> basename base = base"
proof -
  assume "47 \<notin> set base"
  then have "takeWhile (\<lambda>c. c \<noteq> 47) (rev base) = rev base"
    by (auto simp: takeWhile_eq_all_conv)
  then show ?thesis unfolding basename_def by (simp only: rev_rev_ident)
qed

text \<open>
  Claim C9. Whether a member is read is decided on the last component of its name: for a
  name \<open>dir/base\<close>, where \<open>base\<close> has no slash, \<open>basename\<close> gives \<open>base\<close>, and the
  member is read exactly when \<open>base\<close> matches the pattern with a level within the bounds,
  whatever \<open>dir\<close> is and however deep. So \<open>scowl-x/final/english-words.50\<close> is read, and
  \<open>english-words.50/README\<close>, whose directory alone matches, is not.
\<close>

theorem qualifies_on_basename:
  "(47 \<notin> set base \<longrightarrow>
      basename (dir @ [47] @ base) = base
      \<and> qualifies db (dir @ [47] @ base) = qualifies db base
      \<and> qualifies db base =
          (case re_match db WORD_FILE_PATTERN base of
             None \<Rightarrow> Inr False
           | Some g \<Rightarrow>
               (case int_of_group db (g 2) of
                  Inl e \<Rightarrow> Inl e
                | Inr level \<Rightarrow> Inr (MIN_LEVEL \<le> level \<and> level \<le> MAX_LEVEL))))
   \<and> qualifies db (ustr ''scowl-x/final/english-words.50'') = Inr True
   \<and> qualifies db (ustr ''english-words.50/README'') = Inr False"
proof -
  have "qualifies db (dir @ [47] @ base) = qualifies db base" if "47 \<notin> set base"
    unfolding qualifies_def basename_strip[OF that] basename_id[OF that] ..
  moreover have "qualifies db base =
          (case re_match db WORD_FILE_PATTERN base of
             None \<Rightarrow> Inr False
           | Some g \<Rightarrow>
               (case int_of_group db (g 2) of
                  Inl e \<Rightarrow> Inl e
                | Inr level \<Rightarrow> Inr (MIN_LEVEL \<le> level \<and> level \<le> MAX_LEVEL)))"
    if "47 \<notin> set base"
    unfolding qualifies_def basename_id[OF that] Let_def ..
  moreover have "qualifies db (ustr ''scowl-x/final/english-words.50'') = Inr True"
    by (simp add: rx_eval)
  moreover have "qualifies db (ustr ''english-words.50/README'') = Inr False"
    by (simp add: rx_eval)
  moreover have "basename (dir @ [47] @ base) = base" if "47 \<notin> set base"
    using that by (rule basename_strip)
  ultimately show ?thesis by blast
qed

theorem qualifies_on_basename_witness:
  "47 \<notin> set (ustr ''english-words.50'')
   \<and> basename (ustr ''scowl-x/final'' @ [47] @ ustr ''english-words.50'') = ustr ''english-words.50''
   \<and> qualifies ucd_latin1 (ustr ''scowl-x/final'' @ [47] @ ustr ''english-words.50'')
       = qualifies ucd_latin1 (ustr ''english-words.50'')"
proof -
  have h: "47 \<notin> set (ustr ''english-words.50'')" by (simp add: ustr_def)
  with qualifies_on_basename[of "ustr ''english-words.50''" "ustr ''scowl-x/final''" ucd_latin1]
  show ?thesis by blast
qed

subsection \<open>Case\<close>

lemma same_up_to_case_iff: "same_up_to_case db a b = list_all2 (case_rel db) a b"
proof -
  have "(map (case_key db) a = map (case_key db) b)
      = list_all2 (=) (map (case_key db) a) (map (case_key db) b)"
    by (simp add: list.rel_eq)
  then show ?thesis
    by (simp add: same_up_to_case_def list_all2_map1 list_all2_map2 case_rel_def[abs_def])
qed

text \<open>An ASCII literal sees of a character only the first component of its key.\<close>

lemma lit_match_key:
  assumes "p < 128"
  shows "lit_match p c = (fst (case_key db c) = Some (ascii_lower p))"
proof (cases "c < 128")
  case True
  with assms show ?thesis
    by (auto simp: lit_match_def case_key_def ascii_lower_def is_ascii_letter_def
        is_ascii_upper_def is_ascii_lower_def Let_def)
next
  case False
  with assms show ?thesis
    by (auto simp: lit_match_def case_key_def ascii_lower_def is_ascii_letter_def
        is_ascii_upper_def is_ascii_lower_def Let_def)
qed

lemma lit_match_case: "p < 128 \<Longrightarrow> case_rel db x y \<Longrightarrow> lit_match p x = lit_match p y"
  by (simp add: lit_match_key[of p _ db] case_rel_def)

lemma decimal_value_case: "case_rel db x y \<Longrightarrow> decimal_value db x = decimal_value db y"
  by (simp add: case_rel_def case_key_def)

lemma ascii_char_case:
  assumes "case_rel db x y" and "p < 128" and "\<not> is_ascii_letter p"
  shows "(x = p) = (y = p)"
proof -
  from assms(2,3) have "lit_match p x = (x = p)" "lit_match p y = (y = p)"
    by (simp_all add: lit_match_def)
  with lit_match_case[OF assms(2,1)] show ?thesis by simp
qed

lemma newline_case: "case_rel db x y \<Longrightarrow> (x = 10) = (y = 10)"
  by (rule ascii_char_case) (simp_all add: is_ascii_letter_def is_ascii_upper_def is_ascii_lower_def)

lemma slash_case: "case_rel db x y \<Longrightarrow> (x \<noteq> 47) = (y \<noteq> 47)"
  using ascii_char_case[of db x y 47]
  by (simp add: is_ascii_letter_def is_ascii_upper_def is_ascii_lower_def)

lemma atom_ok_case: "ascii_atom a \<Longrightarrow> case_rel db x y \<Longrightarrow> atom_ok db a x = atom_ok db a y"
proof (cases a)
  case (Lit p)
  assume "ascii_atom a" "case_rel db x y"
  with Lit show ?thesis by (simp add: lit_match_case)
next
  case Dot
  assume "case_rel db x y"
  from newline_case[OF this] Dot show ?thesis by simp
next
  case Digit
  assume "case_rel db x y"
  with Digit show ?thesis by (simp add: is_decimal_def decimal_value_case)
qed

lemma greedy_case:
  assumes "list_all2 (case_rel db) s t" and "\<And>x y. case_rel db x y \<Longrightarrow> p x = p y"
  shows "list_all2 (list_all2 (case_rel db)) (greedy p s) (greedy p t)"
  using assms(1)
proof (induction rule: list_all2_induct)
  case Nil
  then show ?case by simp
next
  case (Cons x xs y ys)
  from Cons.hyps(1) assms(2) have "p x = p y" by blast
  with Cons show ?case by (auto intro!: list_all2_appendI)
qed

lemma list_all2_lit_case:
  "list_all (\<lambda>p. p < 128) w \<Longrightarrow> list_all2 (case_rel db) s t \<Longrightarrow>
     list_all2 lit_match w s = list_all2 lit_match w t"
proof (induction w arbitrary: s t)
  case Nil
  then show ?case by (cases s; cases t) auto
next
  case (Cons p w)
  then have p: "p < 128" and w: "list_all (\<lambda>p. p < 128) w" by simp_all
  show ?case
  proof (cases s)
    case Nil
    with Cons.prems show ?thesis by simp
  next
    case (Cons x xs)
    with Cons.prems obtain y ys where t: "t = y # ys" and r: "case_rel db x y"
      and rs: "list_all2 (case_rel db) xs ys"
      by (auto simp: list_all2_Cons1)
    from Cons.IH[OF w rs] lit_match_case[OF p r] show ?thesis by (simp add: Cons t)
  qed
qed

lemma concat_rel:
  "list_all2 (list_all2 A) xs ys \<Longrightarrow> list_all2 A (concat xs) (concat ys)"
  by (induction rule: list_all2_induct) (auto intro: list_all2_appendI)

lemma rx_run_case:
  "ascii_rx r \<Longrightarrow> st_rel db a b \<Longrightarrow> list_all2 (st_rel db) (rx_run db r a) (rx_run db r b)"
proof (induction r arbitrary: a b)
  case (One x)
  obtain s g t h where ab: "a = (s, g)" "b = (t, h)" by (cases a; cases b) auto
  with One have r: "list_all2 (case_rel db) s t" "grp_rel db g h" by (simp_all add: st_rel_def)
  from One have ax: "ascii_atom x" by simp
  show ?case
  proof (cases s)
    case Nil
    with r show ?thesis by (simp add: ab)
  next
    case (Cons c cs)
    with r obtain d ds where t: "t = d # ds" "case_rel db c d" "list_all2 (case_rel db) cs ds"
      by (auto simp: list_all2_Cons1)
    with r atom_ok_case[OF ax t(2)] show ?thesis
      by (simp add: ab Cons st_rel_def)
  qed
next
  case (Rep0 x)
  obtain s g t h where ab: "a = (s, g)" "b = (t, h)" by (cases a; cases b) auto
  with Rep0 have r: "list_all2 (case_rel db) s t" "grp_rel db g h" by (simp_all add: st_rel_def)
  from Rep0 have ax: "ascii_atom x" by simp
  have "list_all2 (list_all2 (case_rel db)) (greedy (atom_ok db x) s) (greedy (atom_ok db x) t)"
    using r(1) by (rule greedy_case) (rule atom_ok_case[OF ax])
  then show ?case
    using r(2) by (simp add: ab list_all2_map1 list_all2_map2 st_rel_def)
next
  case (Rep1 x)
  obtain s g t h where ab: "a = (s, g)" "b = (t, h)" by (cases a; cases b) auto
  with Rep1 have r: "list_all2 (case_rel db) s t" "grp_rel db g h" by (simp_all add: st_rel_def)
  from Rep1 have ax: "ascii_atom x" by simp
  show ?case
  proof (cases s)
    case Nil
    with r show ?thesis by (simp add: ab)
  next
    case (Cons c cs)
    with r obtain d ds where t: "t = d # ds" "case_rel db c d" "list_all2 (case_rel db) cs ds"
      by (auto simp: list_all2_Cons1)
    have "list_all2 (list_all2 (case_rel db)) (greedy (atom_ok db x) cs) (greedy (atom_ok db x) ds)"
      using t(3) by (rule greedy_case) (rule atom_ok_case[OF ax])
    with r atom_ok_case[OF ax t(2)] show ?thesis
      by (simp add: ab Cons t(1) list_all2_map1 list_all2_map2 st_rel_def)
  qed
next
  case (Opt x)
  obtain s g t h where ab: "a = (s, g)" "b = (t, h)" by (cases a; cases b) auto
  with Opt have r: "list_all2 (case_rel db) s t" "grp_rel db g h" by (simp_all add: st_rel_def)
  from Opt have ax: "ascii_atom x" by simp
  show ?case
  proof (cases s)
    case Nil
    with r show ?thesis by (simp add: ab st_rel_def)
  next
    case (Cons c cs)
    with r obtain d ds where t: "t = d # ds" "case_rel db c d" "list_all2 (case_rel db) cs ds"
      by (auto simp: list_all2_Cons1)
    with r atom_ok_case[OF ax t(2)] show ?thesis
      by (simp add: ab Cons st_rel_def)
  qed
next
  case (Str w)
  obtain s g t h where ab: "a = (s, g)" "b = (t, h)" by (cases a; cases b) auto
  with Str have r: "list_all2 (case_rel db) s t" "grp_rel db g h" by (simp_all add: st_rel_def)
  from Str have aw: "list_all (\<lambda>p. p < 128) w" by simp
  from r(1) have len: "length s = length t" by (rule list_all2_lengthD)
  from r(1) have tk: "list_all2 (case_rel db) (take (length w) s) (take (length w) t)"
    by (rule list_all2_takeI)
  from r(1) have dr: "list_all2 (case_rel db) (drop (length w) s) (drop (length w) t)"
    by (rule list_all2_dropI)
  from list_all2_lit_case[OF aw tk] len dr r(2) show ?case
    by (simp add: ab st_rel_def)
next
  case (Seq r1 r2)
  then have a1: "ascii_rx r1" and a2: "ascii_rx r2" by simp_all
  from Seq.IH(1)[OF a1 Seq.prems(2)]
  have "list_all2 (list_all2 (st_rel db)) (map (rx_run db r2) (rx_run db r1 a))
          (map (rx_run db r2) (rx_run db r1 b))"
    by (simp add: list_all2_map1 list_all2_map2) (erule list_all2_mono, rule Seq.IH(2)[OF a2])
  then show ?case by (simp add: concat_rel)
next
  case (Alt r1 r2)
  then have a1: "ascii_rx r1" and a2: "ascii_rx r2" by simp_all
  from Alt.IH(1)[OF a1 Alt.prems(2)] Alt.IH(2)[OF a2 Alt.prems(2)] show ?case
    by (simp add: list_all2_appendI)
next
  case (Grp n r)
  obtain s g t h where ab: "a = (s, g)" "b = (t, h)" by (cases a; cases b) auto
  with Grp.prems have r: "list_all2 (case_rel db) s t" "grp_rel db g h"
    by (simp_all add: st_rel_def)
  from Grp.prems have ar: "ascii_rx r" by simp
  have step: "st_rel db (s', g'(n \<mapsto> take (length s - length s') s))
                     (t', h'(n \<mapsto> take (length t - length t') t))"
    if "st_rel db (s', g') (t', h')" for s' g' t' h'
  proof -
    from that have r': "list_all2 (case_rel db) s' t'" "grp_rel db g' h'"
      by (simp_all add: st_rel_def)
    from r(1) r'(1) have "length s = length t" "length s' = length t'"
      by (auto dest: list_all2_lengthD)
    with r(1) have "list_all2 (case_rel db) (take (length s - length s') s)
        (take (length t - length t') t)"
      by (simp add: list_all2_takeI)
    with r'(1) r'(2) show ?thesis by (simp add: st_rel_def grp_rel_def)
  qed
  from Grp.IH[OF ar Grp.prems(2)]
  have "list_all2 (st_rel db) (rx_run db r (s, g)) (rx_run db r (t, h))"
    by (simp add: ab)
  then have "list_all2 (\<lambda>x y. st_rel db
                   (case x of (s', g') \<Rightarrow> (s', g'(n \<mapsto> take (length s - length s') s)))
                   (case y of (t', h') \<Rightarrow> (t', h'(n \<mapsto> take (length t - length t') t))))
               (rx_run db r (s, g)) (rx_run db r (t, h))"
    by (rule list_all2_mono) (auto intro: step)
  then show ?case by (simp add: ab list_all2_map1 list_all2_map2)
next
  case Dollar
  obtain s g t h where ab: "a = (s, g)" "b = (t, h)" by (cases a; cases b) auto
  with Dollar have r: "list_all2 (case_rel db) s t" "grp_rel db g h"
    by (simp_all add: st_rel_def)
  from r(1) have "(s = []) = (t = [])" by auto
  moreover from r(1) have "(s = [10]) = (t = [10])"
    by (cases s; cases t) (auto simp: list_all2_Cons1 dest: newline_case)
  ultimately show ?case using r by (auto simp: ab st_rel_def)
qed

lemma re_match_case:
  assumes "ascii_rx r" and "list_all2 (case_rel db) a b"
  shows "rel_option (grp_rel db) (re_match db r a) (re_match db r b)"
proof -
  have "st_rel db (a, Map.empty) (b, Map.empty)"
    using assms(2) by (simp add: st_rel_def grp_rel_def)
  from rx_run_case[OF assms(1) this] show ?thesis
    by (cases "rx_run db r (a, Map.empty)"; cases "rx_run db r (b, Map.empty)")
      (auto simp: re_match_def st_rel_def)
qed

lemma int_digits_case:
  "list_all2 (case_rel db) s t \<Longrightarrow> int_digits db acc s = int_digits db acc t"
proof (induction arbitrary: acc rule: list_all2_induct)
  case Nil
  then show ?case by simp
next
  case (Cons x xs y ys)
  from decimal_value_case[OF Cons.hyps(1)] Cons.IH show ?case
    by (simp split: option.splits)
qed

lemma int_of_group_case:
  "rel_option (list_all2 (case_rel db)) u v \<Longrightarrow> int_of_group db u = int_of_group db v"
proof (cases u)
  case None
  assume "rel_option (list_all2 (case_rel db)) u v"
  with None show ?thesis by (cases v) auto
next
  case (Some s)
  assume "rel_option (list_all2 (case_rel db)) u v"
  with Some obtain t where v: "v = Some t" and st: "list_all2 (case_rel db) s t"
    by (cases v) auto
  from st have "(s = []) = (t = [])" by auto
  with int_digits_case[OF st, of 0] show ?thesis
    by (simp add: int_of_group_def Some v)
qed

lemma takeWhile_case:
  assumes "list_all2 (case_rel db) s t" and "\<And>x y. case_rel db x y \<Longrightarrow> p x = p y"
  shows "list_all2 (case_rel db) (takeWhile p s) (takeWhile p t)"
  using assms(1)
proof (induction rule: list_all2_induct)
  case Nil
  then show ?case by simp
next
  case (Cons x xs y ys)
  from assms(2)[OF Cons.hyps(1)] Cons show ?case by simp
qed

lemma basename_case:
  assumes "list_all2 (case_rel db) a b"
  shows "list_all2 (case_rel db) (basename a) (basename b)"
proof -
  from assms have "list_all2 (case_rel db) (rev a) (rev b)" by simp
  then have "list_all2 (case_rel db) (takeWhile (\<lambda>c. c \<noteq> 47) (rev a))
      (takeWhile (\<lambda>c. c \<noteq> 47) (rev b))"
    by (rule takeWhile_case) (rule slash_case)
  then show ?thesis by (simp add: basename_def)
qed

lemma ascii_WORD_FILE_PATTERN: "ascii_rx WORD_FILE_PATTERN"
  by (simp add: WORD_FILE_PATTERN_def ustr_def)

lemma qualifies_case:
  assumes "list_all2 (case_rel db) a b"
  shows "qualifies db a = qualifies db b"
proof -
  from re_match_case[OF ascii_WORD_FILE_PATTERN basename_case[OF assms]]
  have m: "rel_option (grp_rel db) (re_match db WORD_FILE_PATTERN (basename a))
            (re_match db WORD_FILE_PATTERN (basename b))" .
  show ?thesis
  proof (cases "re_match db WORD_FILE_PATTERN (basename a)")
    case None
    with m have "re_match db WORD_FILE_PATTERN (basename b) = None" by auto
    with None show ?thesis by (simp add: qualifies_def)
  next
    case (Some g)
    with m obtain h where h: "re_match db WORD_FILE_PATTERN (basename b) = Some h"
      and gh: "grp_rel db g h"
      by (cases "re_match db WORD_FILE_PATTERN (basename b)") auto
    from gh have "rel_option (list_all2 (case_rel db)) (g 2) (h 2)" by (simp add: grp_rel_def)
    from int_of_group_case[OF this] show ?thesis
      by (simp add: qualifies_def Some h)
  qed
qed

text \<open>What the relation on characters holds.\<close>

lemma case_rel_ascii: "is_ascii_upper x \<Longrightarrow> case_rel db x (x + 32)"
  by (auto simp: case_rel_def case_key_def ascii_lower_def is_ascii_upper_def decimal_value_def)

lemma case_rel_beyond_ascii:
  assumes "128 \<le> x" "128 \<le> y" "x \<notin> {0x130, 0x131, 0x17F, 0x212A}"
    "y \<notin> {0x130, 0x131, 0x17F, 0x212A}" "\<not> is_decimal db x" "\<not> is_decimal db y"
  shows "case_rel db x y"
  using assms by (simp add: case_rel_def case_key_def is_decimal_def)

lemmas case_eval = same_up_to_case_def case_key_def ustr_def ascii_lower_def is_ascii_upper_def
  decimal_value_def is_decimal_def

text \<open>
  Claim C10, as amended. Matching is case-insensitive character by character: two names
  that are the same up to case either both match the pattern or both fail to, and both
  are read or neither is. Names are the same up to case piece by piece; an uppercase
  ASCII letter is the same up to case as its lowercase form, any two code points beyond
  ASCII that are no decimal digits and none of U+0130, U+0131, U+017F, U+212A are, hence
  the two cases of a letter beyond ASCII, and each of those four is as the ASCII letter
  it is a case of. So \<open>ENGLISH-WORDS.60\<close> is read, as \<open>english-words.60\<close> is.
\<close>

theorem pattern_case_insensitive:
  "(same_up_to_case db a b \<longrightarrow>
       (re_match db WORD_FILE_PATTERN a = None) = (re_match db WORD_FILE_PATTERN b = None)
       \<and> qualifies db a = qualifies db b)
   \<and> (same_up_to_case db a b \<and> same_up_to_case db c d \<longrightarrow>
         same_up_to_case db (a @ c) (b @ d))
   \<and> (is_ascii_upper x \<longrightarrow> same_up_to_case db [x] [x + 32])
   \<and> (128 \<le> x \<and> 128 \<le> y \<and> x \<notin> {0x130, 0x131, 0x17F, 0x212A}
        \<and> y \<notin> {0x130, 0x131, 0x17F, 0x212A} \<and> \<not> is_decimal db x \<and> \<not> is_decimal db y \<longrightarrow>
         same_up_to_case db [x] [y])
   \<and> (\<not> is_decimal db 0x130 \<and> \<not> is_decimal db 0x131 \<and> \<not> is_decimal db 0x17F
        \<and> \<not> is_decimal db 0x212A \<longrightarrow>
         same_up_to_case db [0x130] [0x69] \<and> same_up_to_case db [0x131] [0x49]
         \<and> same_up_to_case db [0x17F] [0x53] \<and> same_up_to_case db [0x212A] [0x6B])
   \<and> same_up_to_case db (ustr ''ENGLISH-WORDS.60'') (ustr ''english-words.60'')
   \<and> qualifies db (ustr ''ENGLISH-WORDS.60'') = Inr True
   \<and> qualifies db (ustr ''english-words.60'') = Inr True"
proof -
  have m: "(re_match db WORD_FILE_PATTERN a = None) = (re_match db WORD_FILE_PATTERN b = None)
       \<and> qualifies db a = qualifies db b" if "same_up_to_case db a b"
  proof -
    from that have r: "list_all2 (case_rel db) a b" by (simp add: same_up_to_case_iff)
    from re_match_case[OF ascii_WORD_FILE_PATTERN r]
    have "(re_match db WORD_FILE_PATTERN a = None) = (re_match db WORD_FILE_PATTERN b = None)"
      by (cases "re_match db WORD_FILE_PATTERN a"; cases "re_match db WORD_FILE_PATTERN b") auto
    with qualifies_case[OF r] show ?thesis by simp
  qed
  have ap: "same_up_to_case db (a @ c) (b @ d)"
    if "same_up_to_case db a b" "same_up_to_case db c d"
    using that by (simp add: same_up_to_case_def)
  have up: "same_up_to_case db [x] [x + 32]" if "is_ascii_upper x"
    using case_rel_ascii[OF that, of db] by (simp add: same_up_to_case_iff)
  have be: "same_up_to_case db [x] [y]"
    if "128 \<le> x" "128 \<le> y" "x \<notin> {0x130, 0x131, 0x17F, 0x212A}"
      "y \<notin> {0x130, 0x131, 0x17F, 0x212A}" "\<not> is_decimal db x" "\<not> is_decimal db y"
    using case_rel_beyond_ascii[OF that] by (simp add: same_up_to_case_iff)
  have sp: "same_up_to_case db [0x130] [0x69] \<and> same_up_to_case db [0x131] [0x49]
         \<and> same_up_to_case db [0x17F] [0x53] \<and> same_up_to_case db [0x212A] [0x6B]"
    if "\<not> is_decimal db 0x130" "\<not> is_decimal db 0x131" "\<not> is_decimal db 0x17F"
      "\<not> is_decimal db 0x212A"
    using that by (simp add: case_eval)
  have e1: "same_up_to_case db (ustr ''ENGLISH-WORDS.60'') (ustr ''english-words.60'')"
    by (simp add: case_eval)
  have e2: "qualifies db (ustr ''ENGLISH-WORDS.60'') = Inr True"
    by (simp add: rx_eval)
  have e3: "qualifies db (ustr ''english-words.60'') = Inr True"
    by (simp add: rx_eval)
  from m ap up be sp e1 e2 e3 show ?thesis by blast
qed

theorem pattern_case_insensitive_witness:
  "same_up_to_case ucd_latin1 ([0xC9] @ ustr ''cole-Words.20'') ([0xE9] @ ustr ''COLE-wORDS.20'')
   \<and> (re_match ucd_latin1 WORD_FILE_PATTERN ([0xC9] @ ustr ''cole-Words.20'') = None)
       = (re_match ucd_latin1 WORD_FILE_PATTERN ([0xE9] @ ustr ''COLE-wORDS.20'') = None)
   \<and> qualifies ucd_latin1 ([0xC9] @ ustr ''cole-Words.20'')
       = qualifies ucd_latin1 ([0xE9] @ ustr ''COLE-wORDS.20'')
   \<and> same_up_to_case ucd_latin1 [0xC9] [0xE9]
   \<and> same_up_to_case ucd_latin1 (ustr ''cole-Words.20'') (ustr ''COLE-wORDS.20'')
   \<and> is_ascii_upper 66 \<and> same_up_to_case ucd_latin1 [66] [66 + 32]
   \<and> (128::nat) \<le> 0xC9 \<and> (128::nat) \<le> 0xE9
   \<and> (0xC9::nat) \<notin> {0x130, 0x131, 0x17F, 0x212A} \<and> (0xE9::nat) \<notin> {0x130, 0x131, 0x17F, 0x212A}
   \<and> \<not> is_decimal ucd_latin1 0xC9 \<and> \<not> is_decimal ucd_latin1 0xE9
   \<and> \<not> is_decimal ucd_latin1 0x130 \<and> \<not> is_decimal ucd_latin1 0x131
   \<and> \<not> is_decimal ucd_latin1 0x17F \<and> \<not> is_decimal ucd_latin1 0x212A
   \<and> same_up_to_case ucd_latin1 [0x130] [0x69] \<and> same_up_to_case ucd_latin1 [0x131] [0x49]
   \<and> same_up_to_case ucd_latin1 [0x17F] [0x53] \<and> same_up_to_case ucd_latin1 [0x212A] [0x6B]"
proof -
  have h1: "is_ascii_upper 66" by (simp add: is_ascii_upper_def)
  have h2: "(128::nat) \<le> 0xC9" "(128::nat) \<le> 0xE9"
    "(0xC9::nat) \<notin> {0x130, 0x131, 0x17F, 0x212A}" "(0xE9::nat) \<notin> {0x130, 0x131, 0x17F, 0x212A}"
    "\<not> is_decimal ucd_latin1 0xC9" "\<not> is_decimal ucd_latin1 0xE9"
    by (simp_all add: is_decimal_def decimal_value_def)
  have h3: "\<not> is_decimal ucd_latin1 0x130" "\<not> is_decimal ucd_latin1 0x131"
    "\<not> is_decimal ucd_latin1 0x17F" "\<not> is_decimal ucd_latin1 0x212A"
    by (simp_all add: is_decimal_def decimal_value_def ucd_latin1_def)
  have h4: "same_up_to_case ucd_latin1 (ustr ''cole-Words.20'') (ustr ''COLE-wORDS.20'')"
    by (simp add: case_eval)
  from h2 pattern_case_insensitive[of ucd_latin1 "[]" "[]" "[]" "[]" "0xC9" "0xE9"]
  have p1: "same_up_to_case ucd_latin1 [0xC9] [0xE9]" by blast
  from h1 pattern_case_insensitive[of ucd_latin1 "[]" "[]" "[]" "[]" 66 0]
  have p2: "same_up_to_case ucd_latin1 [66] [66 + 32]" by blast
  from h3 pattern_case_insensitive[of ucd_latin1 "[]" "[]" "[]" "[]" 0 0]
  have p3: "same_up_to_case ucd_latin1 [0x130] [0x69] \<and> same_up_to_case ucd_latin1 [0x131] [0x49]
   \<and> same_up_to_case ucd_latin1 [0x17F] [0x53] \<and> same_up_to_case ucd_latin1 [0x212A] [0x6B]"
    by blast
  from p1 h4 pattern_case_insensitive[of ucd_latin1 "[0xC9]" "[0xE9]" "ustr ''cole-Words.20''"
      "ustr ''COLE-wORDS.20''" 0 0]
  have p4: "same_up_to_case ucd_latin1 ([0xC9] @ ustr ''cole-Words.20'')
      ([0xE9] @ ustr ''COLE-wORDS.20'')"
    by blast
  with pattern_case_insensitive[of ucd_latin1 "[0xC9] @ ustr ''cole-Words.20''"
      "[0xE9] @ ustr ''COLE-wORDS.20''" "[]" "[]" 0 0]
  have p5: "(re_match ucd_latin1 WORD_FILE_PATTERN ([0xC9] @ ustr ''cole-Words.20'') = None)
       = (re_match ucd_latin1 WORD_FILE_PATTERN ([0xE9] @ ustr ''COLE-wORDS.20'') = None)
   \<and> qualifies ucd_latin1 ([0xC9] @ ustr ''cole-Words.20'')
       = qualifies ucd_latin1 ([0xE9] @ ustr ''COLE-wORDS.20'')"
    by blast
  from h1 h2 h3 h4 p1 p2 p3 p4 p5 show ?thesis by blast
qed

text \<open>
  The claim as first stated, for every change of letter case, fails where the change
  alters the number of characters: the name \<open>br\<close>, U+0130, \<open>tish.20\<close> matches the
  pattern and is read, and the name that \<open>str.lower\<close> makes of it, with \<open>i\<close> and
  U+0307 for U+0130, does not match.
\<close>

theorem pattern_case_sensitive_dotted_I:
  "py_lower ucd_dotted [98, 114, 0x130, 116, 105, 115, 104, 46, 50, 48]
     = [98, 114, 0x69, 0x307, 116, 105, 115, 104, 46, 50, 48]
   \<and> re_match ucd_dotted WORD_FILE_PATTERN [98, 114, 0x130, 116, 105, 115, 104, 46, 50, 48] \<noteq> None
   \<and> re_match ucd_dotted WORD_FILE_PATTERN [98, 114, 0x69, 0x307, 116, 105, 115, 104, 46, 50, 48]
       = None
   \<and> qualifies ucd_dotted [98, 114, 0x130, 116, 105, 115, 104, 46, 50, 48] = Inr True
   \<and> qualifies ucd_dotted [98, 114, 0x69, 0x307, 116, 105, 115, 104, 46, 50, 48] = Inr False"
  by (simp add: rx_eval py_lower_def lower_char_def ucd_dotted_def)

section \<open>Properties of the resolver and of the entry point\<close>

lemmas resolver_eval = get_download_url_def resolve_try_def caught_by_resolver_def is_URLError_def
  dict_get_def FALLBACK_URL_def Let_def

lemma get_download_url_raises_iff:
  "(get_download_url q = Inl e) =
     ((q = Inl e \<and> \<not> caught_by_resolver e)
      \<or> (e = AttributeError \<and> (\<exists>d. q = Inr d \<and> (\<forall>kvs. d \<noteq> JObject kvs))))"
proof (cases q)
  case (Inl x)
  then show ?thesis by (auto simp: get_download_url_def resolve_try_def)
next
  case (Inr d)
  then show ?thesis
    by (cases d) (auto simp: get_download_url_def resolve_try_def caught_by_resolver_def
        is_URLError_def Let_def)
qed

text \<open>
  Claim C6 says that \<open>get_download_url\<close> never fails. The code lets exceptions through:
  a response that is JSON but not an object (here \<open>[]\<close>) raises \<open>AttributeError\<close> at
  \<open>data.get\<close>, a response that is not UTF-8 raises \<open>UnicodeDecodeError\<close>, and a read
  that fails raises an \<open>OSError\<close> that is not a \<open>URLError\<close>; none is named by the
  \<open>except\<close> clause. And with \<open>"tarball_url": 5\<close> the function returns the number 5,
  not a string.
\<close>

theorem get_download_url_can_raise:
  "get_download_url (Inr (JArray [])) = Inl AttributeError
   \<and> get_download_url (Inl UnicodeDecodeError) = Inl UnicodeDecodeError
   \<and> get_download_url (Inl OSError) = Inl OSError
   \<and> get_download_url (Inr (JObject [(ustr ''tarball_url'', JInt 5)])) = Inr (JInt 5)"
  by (simp add: resolver_eval ustr_def)

lemma process_words_Nil: "process_words db [] = []"
  by (simp add: process_words_def)

lemma save_outputs_written:
  "written (save_outputs wr words st) = [] \<Longrightarrow> files (save_outputs wr words st) = files st"
  by (auto simp: save_outputs_def Let_def split: if_splits)

text \<open>
  Claim C4. When the word filter produces no word, in particular when it gets no raw
  line at all, the run ends with \<open>sys.exit(1)\<close>, so with a non-zero exit status, and
  neither output file is created or overwritten. A run that opened an output file for
  writing, or changed one, is a run in which every stage succeeded and the filtered list
  was not empty, and such a run ends in \<open>save_outputs\<close>.
\<close>

theorem main_empty_word_set:
  "(get_download_url (api_query w) = Inr url \<and> download_tarball (transfer w url) = Inr tar
     \<and> extract_words db tar = Inr raw \<and> process_words db raw = [] \<longrightarrow>
       main db w fs = \<lparr>raised = Some (SystemExit 1), files = fs, written = []\<rparr>
       \<and> exit_status (main db w fs) = 1)
   \<and> process_words db [] = []
   \<and> (written (main db w fs) \<noteq> [] \<or> files (main db w fs) \<noteq> fs \<longrightarrow>
        (\<exists>url tar raw. get_download_url (api_query w) = Inr url
           \<and> download_tarball (transfer w url) = Inr tar
           \<and> extract_words db tar = Inr raw \<and> process_words db raw \<noteq> []
           \<and> main db w fs
               = save_outputs (writable w) (process_words db raw)
                   \<lparr>raised = None, files = fs, written = []\<rparr>))"
proof -
  have a: "main db w fs = \<lparr>raised = Some (SystemExit 1), files = fs, written = []\<rparr>
       \<and> exit_status (main db w fs) = 1"
    if "get_download_url (api_query w) = Inr url" "download_tarball (transfer w url) = Inr tar"
      "extract_words db tar = Inr raw" "process_words db raw = []"
    using that by (simp add: main_def exit_status_def)
  have b: "\<exists>url tar raw. get_download_url (api_query w) = Inr url
           \<and> download_tarball (transfer w url) = Inr tar
           \<and> extract_words db tar = Inr raw \<and> process_words db raw \<noteq> []
           \<and> main db w fs
               = save_outputs (writable w) (process_words db raw)
                   \<lparr>raised = None, files = fs, written = []\<rparr>"
    if c: "written (main db w fs) \<noteq> [] \<or> files (main db w fs) \<noteq> fs"
  proof (cases "get_download_url (api_query w)")
    case (Inl e)
    with c show ?thesis by (simp add: main_def)
  next
    case url: (Inr url)
    show ?thesis
    proof (cases "download_tarball (transfer w url)")
      case (Inl e)
      with c url show ?thesis by (simp add: main_def)
    next
      case tar: (Inr tar)
      show ?thesis
      proof (cases "extract_words db tar")
        case (Inl e)
        with c url tar show ?thesis by (simp add: main_def)
      next
        case raw: (Inr raw)
        show ?thesis
        proof (cases "process_words db raw = []")
          case True
          with c url tar raw show ?thesis by (simp add: main_def)
        next
          case False
          with url tar raw show ?thesis by (simp add: main_def)
        qed
      qed
    qed
  qed
  from a b process_words_Nil show ?thesis by blast
qed

lemma extract_tar_rare: "extract_words ucd_latin1 tar_rare = Inr []"
  by (simp add: tar_rare_def extract_words_def rx_eval)

lemma extract_tar_common:
  "extract_words ucd_latin1 tar_common = Inr [ustr ''apple'', ustr ''it's'']"
  by (simp add: tar_common_def extract_words_def rx_eval splitlines_def is_linebreak_def)

theorem main_empty_word_set_witness:
  "get_download_url (api_query world_rare) = Inr FALLBACK_URL
   \<and> download_tarball (transfer world_rare FALLBACK_URL) = Inr tar_rare
   \<and> extract_words ucd_latin1 tar_rare = Inr []
   \<and> process_words ucd_latin1 [] = []
   \<and> main ucd_latin1 world_rare Map.empty
       = \<lparr>raised = Some (SystemExit 1), files = Map.empty, written = []\<rparr>
   \<and> exit_status (main ucd_latin1 world_rare Map.empty) = 1
   \<and> written (main ucd_latin1 world_common Map.empty) \<noteq> []
   \<and> (\<exists>url tar raw. get_download_url (api_query world_common) = Inr url
           \<and> download_tarball (transfer world_common url) = Inr tar
           \<and> extract_words ucd_latin1 tar = Inr raw \<and> process_words ucd_latin1 raw \<noteq> [])"
proof -
  have h1: "get_download_url (api_query world_rare) = Inr FALLBACK_URL"
    by (simp add: world_rare_def get_download_url_def resolve_try_def caught_by_resolver_def
        is_URLError_def)
  have h2: "download_tarball (transfer world_rare FALLBACK_URL) = Inr tar_rare"
    by (simp add: world_rare_def download_tarball_def)
  note h3 = extract_tar_rare
  have h4: "process_words ucd_latin1 [] = []" by (simp add: process_words_def)
  from main_empty_word_set[of world_rare FALLBACK_URL tar_rare ucd_latin1 "[]" Map.empty]
    h1 h2 h3 h4
  have r1: "main ucd_latin1 world_rare Map.empty
       = \<lparr>raised = Some (SystemExit 1), files = Map.empty, written = []\<rparr>
     \<and> exit_status (main ucd_latin1 world_rare Map.empty) = 1"
    by blast
  have g1: "get_download_url (api_query world_common) = Inr FALLBACK_URL"
    by (simp add: world_common_def get_download_url_def resolve_try_def caught_by_resolver_def
        is_URLError_def)
  have g2: "download_tarball (transfer world_common FALLBACK_URL) = Inr tar_common"
    by (simp add: world_common_def download_tarball_def)
  have g3: "process_words ucd_latin1 [ustr ''apple'', ustr ''it's''] = [ustr ''apple'']"
    by (simp add: filter_eval)
  have g4: "main ucd_latin1 world_common Map.empty
      = save_outputs (writable world_common) [ustr ''apple'']
          \<lparr>raised = None, files = Map.empty, written = []\<rparr>"
    by (simp add: main_def g1 g2 extract_tar_common g3)
  have h5: "written (main ucd_latin1 world_common Map.empty) \<noteq> []"
    unfolding g4 by (simp add: save_outputs_def world_common_def Let_def)
  with main_empty_word_set[of world_common _ _ ucd_latin1 _ Map.empty]
  have r2: "\<exists>url tar raw. get_download_url (api_query world_common) = Inr url
           \<and> download_tarball (transfer world_common url) = Inr tar
           \<and> extract_words ucd_latin1 tar = Inr raw \<and> process_words ucd_latin1 raw \<noteq> []"
    by blast
  from h1 h2 h3 h4 r1 h5 r2 show ?thesis by blast
qed

section \<open>Properties of the output writer\<close>

subsection \<open>Reading the text file\<close>

lemma py_join_lines:
  "words \<noteq> [] \<Longrightarrow> py_join [10] words @ [10] = concat (map (\<lambda>w. w @ [10]) words)"
  by (induction "[10::nat]" words rule: py_join.induct) simp_all

lemma txt_content_lines:
  "words \<noteq> [] \<Longrightarrow> txt_content words = concat (map (\<lambda>w. w @ [10]) words)"
  by (simp add: txt_content_def py_join_lines)

lemma split_lines_word:
  assumes "\<forall>c \<in> set w. c \<noteq> 10 \<and> c \<noteq> 13"
  shows "split_lines (\<lambda>c. c = 10 \<or> c = 13) cur (w @ 10 # rest)
         = (rev cur @ w) # split_lines (\<lambda>c. c = 10 \<or> c = 13) [] rest"
  using assms
proof (induction w arbitrary: cur)
  case Nil
  then show ?case by (cases rest) simp_all
next
  case (Cons x w)
  then have x: "x \<noteq> 10" "x \<noteq> 13" by simp_all
  obtain d ds where tl: "w @ 10 # rest = d # ds" by (cases "w @ 10 # rest") auto
  have "split_lines (\<lambda>c. c = 10 \<or> c = 13) cur ((x # w) @ 10 # rest)
        = split_lines (\<lambda>c. c = 10 \<or> c = 13) (x # cur) (w @ 10 # rest)"
    using x by (simp add: tl)
  also have "\<dots> = (rev (x # cur) @ w) # split_lines (\<lambda>c. c = 10 \<or> c = 13) [] rest"
    using Cons by simp
  finally show ?case by simp
qed

lemma read_lines_concat:
  "\<forall>w \<in> set words. \<forall>c \<in> set w. c \<noteq> 10 \<and> c \<noteq> 13 \<Longrightarrow>
     read_lines (concat (map (\<lambda>w. w @ [10]) words)) = words"
proof (induction words)
  case Nil
  then show ?case by (simp add: read_lines_def)
next
  case (Cons w words)
  then have "\<forall>c \<in> set w. c \<noteq> 10 \<and> c \<noteq> 13" by simp
  from split_lines_word[OF this, of "[]"] Cons show ?case
    by (simp add: read_lines_def)
qed

subsection \<open>Reading the JSON file\<close>

lemma jrun_append:
  "jrun st (a @ b) = (case jrun st a of None \<Rightarrow> None | Some st' \<Rightarrow> jrun st' b)"
  by (induction a arbitrary: st) (simp_all split: option.splits)

lemma escape_plain: "plain c \<Longrightarrow> escape_char c = [c]"
  by (simp add: plain_def escape_char_def)

lemma encode_plain: "list_all plain w \<Longrightarrow> encode_string w = [34] @ w @ [34]"
proof -
  assume "list_all plain w"
  then have "concat (map escape_char w) = w"
    by (induction w) (simp_all add: escape_plain)
  then show ?thesis by (simp add: encode_string_def)
qed

lemma jrun_plain:
  "list_all plain w \<Longrightarrow> jrun (JStr ws acc) w = Some (JStr ws (rev w @ acc))"
  by (induction w arbitrary: acc) (simp_all add: step_str_def plain_def)

lemma jrun_string:
  assumes "list_all plain w"
  shows "jrun (JStr ws []) (w @ [34] @ rest) = jrun (JAfter (w # ws)) rest"
  using jrun_plain[OF assms, of ws "[]"]
  by (simp add: jrun_append step_str_def)

lemma jrun_first:
  assumes "list_all plain w"
  shows "jrun JStart ([91] @ [10, 32, 32] @ encode_string w @ rest) = jrun (JAfter [w]) rest"
proof -
  have "jrun JStart ([91] @ [10, 32, 32] @ encode_string w @ rest)
      = jrun (JStr [] []) (w @ [34] @ rest)"
    by (simp add: encode_plain[OF assms] is_json_ws_def)
  then show ?thesis by (simp only: jrun_string[OF assms])
qed

lemma jrun_next:
  assumes "list_all plain w"
  shows "jrun (JAfter ws) (([44] @ [10, 32, 32]) @ encode_string w @ rest)
         = jrun (JAfter (w # ws)) rest"
proof -
  have "jrun (JAfter ws) (([44] @ [10, 32, 32]) @ encode_string w @ rest)
      = jrun (JStr ws []) (w @ [34] @ rest)"
    by (simp add: encode_plain[OF assms] is_json_ws_def)
  then show ?thesis by (simp only: jrun_string[OF assms])
qed

lemma py_join_Cons:
  "py_join sep (x # xs) = x @ concat (map (\<lambda>y. sep @ y) xs)"
  by (induction sep "x # xs" arbitrary: x xs rule: py_join.induct) simp_all

lemma jrun_rest:
  "list_all (list_all plain) xs \<Longrightarrow>
     jrun (JAfter ws) (concat (map (\<lambda>y. ([44] @ [10, 32, 32]) @ y) (map encode_string xs)) @ rest)
     = jrun (JAfter (rev xs @ ws)) rest"
proof (induction xs arbitrary: ws)
  case Nil
  then show ?case by simp
next
  case (Cons x xs)
  then have px: "list_all plain x" and pxs: "list_all (list_all plain) xs" by simp_all
  have "jrun (JAfter ws)
          (concat (map (\<lambda>y. ([44] @ [10, 32, 32]) @ y) (map encode_string (x # xs))) @ rest)
      = jrun (JAfter ws) (([44] @ [10, 32, 32]) @ encode_string x
          @ (concat (map (\<lambda>y. ([44] @ [10, 32, 32]) @ y) (map encode_string xs)) @ rest))"
    by simp
  also have "\<dots> = jrun (JAfter (x # ws))
          (concat (map (\<lambda>y. ([44] @ [10, 32, 32]) @ y) (map encode_string xs)) @ rest)"
    by (rule jrun_next[OF px])
  also have "\<dots> = jrun (JAfter (rev xs @ x # ws)) rest"
    by (rule Cons.IH[OF pxs])
  finally show ?case by simp
qed

lemma json_loads_dump:
  assumes "words \<noteq> []" and "list_all (list_all plain) words"
  shows "json_loads_strings (json_content words) = Some words"
proof -
  from assms(1) obtain x xs where w: "words = x # xs" by (cases words) auto
  with assms(2) have px: "list_all plain x" and pxs: "list_all (list_all plain) xs" by simp_all
  let ?sep = "[44] @ [10, 32, 32]"
  let ?tail = "concat (map (\<lambda>y. ?sep @ y) (map encode_string xs)) @ [10, 93, 10]"
  have "json_content words = [91] @ [10, 32, 32] @ encode_string x @ ?tail"
    by (simp add: json_content_def json_dump_def w py_join_Cons ustr_def)
  then have "jrun JStart (json_content words) = jrun (JAfter [x]) ?tail"
    by (simp only: jrun_first[OF px])
  also have "\<dots> = jrun (JAfter (rev xs @ [x])) [10, 93, 10]"
    by (rule jrun_rest[OF pxs])
  also have "\<dots> = Some (JDone (rev xs @ [x]))"
    by (simp add: is_json_ws_def)
  finally show ?thesis by (simp add: json_loads_strings_def w)
qed

lemma clean_word_plain: "clean_word w \<Longrightarrow> list_all plain w"
  by (auto simp: clean_word_def list_all_iff is_ascii_lower_def plain_def)

lemma clean_word_no_newline: "clean_word w \<Longrightarrow> \<forall>c \<in> set w. c \<noteq> 10 \<and> c \<noteq> 13"
  by (auto simp: clean_word_def list_all_iff is_ascii_lower_def)

text \<open>
  Claim C8. Every list that \<open>process_words\<close> returns holds only clean words. For a
  non-empty list of clean words, when both files can be opened, \<open>save_outputs\<close> leaves
  in the text file each word followed by a newline, and in the JSON file a document that
  parses to the same list of words; reading the text file line by line gives that list
  too, so the two files agree.
\<close>

theorem outputs_agree:
  "list_all clean_word (process_words db raw)
   \<and> (words \<noteq> [] \<and> list_all clean_word words \<and> wr OUT_TXT \<and> wr OUT_JSON \<longrightarrow>
        files (save_outputs wr words st) OUT_TXT = Some (txt_content words)
        \<and> files (save_outputs wr words st) OUT_JSON = Some (json_content words)
        \<and> txt_content words = concat (map (\<lambda>w. w @ [10]) words)
        \<and> json_loads_strings (json_content words) = Some words
        \<and> read_lines (txt_content words) = words)"
proof -
  have "files (save_outputs wr words st) OUT_TXT = Some (txt_content words)
        \<and> files (save_outputs wr words st) OUT_JSON = Some (json_content words)"
    if "wr OUT_TXT" "wr OUT_JSON"
    using that by (simp add: save_outputs_def Let_def)
  moreover have "txt_content words = concat (map (\<lambda>w. w @ [10]) words)
        \<and> json_loads_strings (json_content words) = Some words
        \<and> read_lines (txt_content words) = words"
    if ne: "words \<noteq> []" and cl: "list_all clean_word words"
  proof -
    from cl have p: "list_all (list_all plain) words"
      by (induction words) (simp_all add: clean_word_plain)
    from cl have n: "\<forall>w \<in> set words. \<forall>c \<in> set w. c \<noteq> 10 \<and> c \<noteq> 13"
      using clean_word_no_newline by (auto simp: list_all_iff)
    from txt_content_lines[OF ne] read_lines_concat[OF n] json_loads_dump[OF ne p]
    show ?thesis by simp
  qed
  moreover have "list_all clean_word (process_words db raw)"
    using process_words_props[of db raw] by simp
  ultimately show ?thesis by blast
qed

theorem outputs_agree_witness:
  "[ustr ''apple'', ustr ''brick''] \<noteq> [] \<and> list_all clean_word [ustr ''apple'', ustr ''brick'']
   \<and> files (save_outputs (\<lambda>f. True) [ustr ''apple'', ustr ''brick'']
              \<lparr>raised = None, files = Map.empty, written = []\<rparr>) OUT_TXT
       = Some (txt_content [ustr ''apple'', ustr ''brick''])
   \<and> files (save_outputs (\<lambda>f. True) [ustr ''apple'', ustr ''brick'']
              \<lparr>raised = None, files = Map.empty, written = []\<rparr>) OUT_JSON
       = Some (json_content [ustr ''apple'', ustr ''brick''])
   \<and> json_loads_strings (json_content [ustr ''apple'', ustr ''brick''])
       = Some [ustr ''apple'', ustr ''brick'']
   \<and> read_lines (txt_content [ustr ''apple'', ustr ''brick'']) = [ustr ''apple'', ustr ''brick'']"
proof -
  have h: "[ustr ''apple'', ustr ''brick''] \<noteq> []" "list_all clean_word [ustr ''apple'', ustr ''brick'']"
    by (simp_all add: clean_word_def ustr_def is_ascii_lower_def)
  with outputs_agree[of db raw "[ustr ''apple'', ustr ''brick'']" "\<lambda>f. True"
      "\<lparr>raised = None, files = Map.empty, written = []\<rparr>"]
  show ?thesis by blast
qed

text \<open>
  For the empty list the two files differ, the text file holding one empty line: the
  claim is about non-empty lists, the only ones \<open>main\<close> saves.
\<close>

lemma empty_list_disagrees:
  "json_loads_strings (json_content []) = Some [] \<and> read_lines (txt_content []) = [[]]"
  by (simp add: json_loads_strings_def json_content_def json_dump_def ustr_def is_json_ws_def
      read_lines_def txt_content_def)

end
